theory Spec2Isabelle
  imports Main "HOL-Library.Multiset"
begin

unbundle bit_operations_syntax

section \<open>Integer primitives\<close>

text \<open>
  A shallow embedding of \<^verbatim>\<open>maximal_intervals_minimizer.py\<close>. Python's integers are
  unbounded. Every bit mask of the program is non-negative by construction (built from
  \<open>0\<close> by \<^verbatim>\<open>|= 1 << k\<close>, or cut by \<^verbatim>\<open>& ((1 << n) - 1)\<close>), so masks, points and
  counts are naturals; the arguments a caller supplies, which may be any integer, are
  \<open>int\<close>.
\<close>

text \<open>
  The lowest set bit, written \<^verbatim>\<open>x & -x\<close> in every bit loop of the source. The
  negation is Python's, on unbounded integers, so the model goes through \<open>int\<close>.
\<close>

definition lsb_of :: "nat \<Rightarrow> nat" where
  "lsb_of x = nat (int x AND - int x)"

text \<open>
  \<^verbatim>\<open>a & ~b\<close> on non-negative \<open>a\<close> and \<open>b\<close>; the complement is negative in between.
\<close>

definition and_not :: "nat \<Rightarrow> nat \<Rightarrow> nat" where
  "and_not a b = nat (int a AND NOT (int b))"

text \<open>
  \<^verbatim>\<open>bin(x).count('1')\<close>: the number of set bits.
\<close>

fun popcount :: "nat \<Rightarrow> nat" where
  "popcount x = (if x = 0 then 0 else x mod 2 + popcount (x div 2))"

text \<open>
  \<^verbatim>\<open>int.bit_length()\<close>; the loops compute a point as \<^verbatim>\<open>lsb.bit_length() - 1\<close>.
\<close>

fun bit_length :: "nat \<Rightarrow> nat" where
  "bit_length x = (if x = 0 then 0 else 1 + bit_length (x div 2))"

declare popcount.simps [simp del] bit_length.simps [simp del]

lemma bit_and_not: "bit (and_not a b) i \<longleftrightarrow> bit a i \<and> \<not> bit b i"
  unfolding and_not_def
  by (simp add: bit_simps)

lemma lsb_of_0: "lsb_of 0 = 0" by (simp add: lsb_of_def)

lemma bit_int_and_neg: "bit (k AND - k) j \<longleftrightarrow> bit k j \<and> \<not> bit (k - 1) j" for k :: int
  by (simp add: bit_and_iff bit_minus_int_iff bit_not_iff)

lemma int_and_neg_odd: "odd k \<Longrightarrow> k AND - k = 1" for k :: int
proof (rule bit_eqI)
  fix j assume k: "odd k"
  then have d: "(k - 1) div 2 = k div 2" by presburger
  show "bit (k AND - k) j = bit (1::int) j"
  proof (cases j)
    case 0 then show ?thesis using k by (simp add: bit_0 even_and_iff)
  next
    case (Suc i)
    have "bit (k AND - k) (Suc i) \<longleftrightarrow> bit k (Suc i) \<and> \<not> bit (k - 1) (Suc i)"
      by (rule bit_int_and_neg)
    also have "\<dots> \<longleftrightarrow> False" using d by (simp add: bit_Suc)
    finally show ?thesis using Suc by (simp add: bit_Suc del: bit_and_iff)
  qed
qed

lemma int_and_neg_even: "even k \<Longrightarrow> k AND - k = 2 * ((k div 2) AND - (k div 2))" for k :: int
proof (rule bit_eqI)
  fix j assume k: "even k"
  then have d: "(k - 1) div 2 = k div 2 - 1" by presburger
  show "bit (k AND - k) j = bit (2 * ((k div 2) AND - (k div 2))) j"
  proof (cases j)
    case 0 then show ?thesis using k by (simp add: bit_0 even_and_iff)
  next
    case (Suc i)
    have "bit (k AND - k) (Suc i) \<longleftrightarrow> bit k (Suc i) \<and> \<not> bit (k - 1) (Suc i)"
      by (rule bit_int_and_neg)
    also have "\<dots> \<longleftrightarrow> bit (k div 2) i \<and> \<not> bit (k div 2 - 1) i" using d by (simp add: bit_Suc)
    also have "\<dots> \<longleftrightarrow> bit ((k div 2) AND - (k div 2)) i" by (simp only: bit_int_and_neg)
    also have "\<dots> \<longleftrightarrow> bit (2 * ((k div 2) AND - (k div 2))) (Suc i)" by (simp add: bit_Suc)
    finally show ?thesis using Suc by simp
  qed
qed

lemma lsb_of_odd: "odd x \<Longrightarrow> lsb_of x = 1"
  by (simp add: lsb_of_def int_and_neg_odd)

lemma lsb_of_even: "even x \<Longrightarrow> lsb_of x = 2 * lsb_of (x div 2)"
proof -
  assume "even x"
  then have "int x AND - int x = 2 * ((int x div 2) AND - (int x div 2))"
    by (intro int_and_neg_even) simp
  moreover have "int x div 2 = int (x div 2)" by simp
  ultimately show ?thesis
    by (simp add: lsb_of_def nat_mult_distrib)
qed

lemma lsb_of_char: "x \<noteq> 0 \<Longrightarrow> \<exists>i. lsb_of x = 2 ^ i \<and> bit x i \<and> (\<forall>j<i. \<not> bit x j)"
proof (induction x rule: less_induct)
  case (less x)
  show ?case
  proof (cases "odd x")
    case True
    then have "lsb_of x = 2 ^ 0 \<and> bit x 0 \<and> (\<forall>j<0. \<not> bit x j)"
      by (simp add: lsb_of_odd bit_0)
    then show ?thesis by blast
  next
    case False
    with less.prems have "x div 2 < x" "x div 2 \<noteq> 0" by presburger+
    from less.IH[OF this] obtain i where i: "lsb_of (x div 2) = 2 ^ i" "bit (x div 2) i"
        "\<forall>j<i. \<not> bit (x div 2) j" by blast
    have "lsb_of x = 2 ^ Suc i" using False i(1) by (simp add: lsb_of_even)
    moreover have "bit x (Suc i)" using i(2) by (simp add: bit_Suc)
    moreover have "\<forall>j<Suc i. \<not> bit x j"
    proof (intro allI impI)
      fix j assume "j < Suc i"
      show "\<not> bit x j"
      proof (cases j)
        case 0 then show ?thesis using False by (simp add: bit_0)
      next
        case (Suc k)
        then show ?thesis using i(3) \<open>j < Suc i\<close> by (simp add: bit_Suc)
      qed
    qed
    ultimately show ?thesis by blast
  qed
qed

lemma bits_nat_unfold: "{i. bit (x::nat) i} = (if odd x then {0} else {}) \<union> Suc ` {i. bit (x div 2) i}"
proof (rule set_eqI)
  fix i show "i \<in> {i. bit x i} \<longleftrightarrow> i \<in> (if odd x then {0} else {}) \<union> Suc ` {i. bit (x div 2) i}"
    by (cases i) (auto simp: bit_0 bit_Suc)
qed

lemma finite_bits_nat: "finite {i. bit (x::nat) i}"
proof (induction x rule: less_induct)
  case (less x)
  show ?case
  proof (cases "x = 0")
    case True then show ?thesis by simp
  next
    case False
    then have "finite {i. bit (x div 2) i}" by (intro less.IH) simp
    then show ?thesis by (subst bits_nat_unfold) simp
  qed
qed

lemma popcount_card: "popcount x = card {i. bit x i}"
proof (induction x rule: popcount.induct)
  case (1 x)
  show ?case
  proof (cases "x = 0")
    case True then show ?thesis by (simp add: popcount.simps)
  next
    case False
    have fin: "finite (Suc ` {i. bit (x div 2) i})" by (simp add: finite_bits_nat)
    have "card {i. bit x i} = card (if odd x then {0::nat} else {}) + card (Suc ` {i. bit (x div 2) i})"
      by (subst bits_nat_unfold, subst card_Un_disjoint) (auto simp: fin)
    also have "card (Suc ` {i. bit (x div 2) i}) = card {i. bit (x div 2) i}"
      by (simp add: card_image)
    also have "card (if odd x then {0::nat} else {}) = x mod 2"
      by (simp add: odd_iff_mod_2_eq_one)
    finally show ?thesis using False 1 by (subst popcount.simps) simp
  qed
qed

lemma bit_length_exp: "bit_length (2 ^ i) = Suc i"
  by (induction i) (simp_all add: bit_length.simps)

lemma lsb_xor_bits: "x \<noteq> 0 \<Longrightarrow> \<exists>i. lsb_of x = 2 ^ i \<and> bit x i \<and> (\<forall>j<i. \<not> bit x j)
    \<and> (\<forall>j. bit (x XOR lsb_of x) j \<longleftrightarrow> bit x j \<and> j \<noteq> i)"
proof -
  assume "x \<noteq> 0"
  from lsb_of_char[OF this] obtain i where i: "lsb_of x = 2 ^ i" "bit x i" "\<forall>j<i. \<not> bit x j" by blast
  have "\<forall>j. bit (x XOR lsb_of x) j \<longleftrightarrow> bit x j \<and> j \<noteq> i"
    using i(2) by (auto simp: i(1) bit_xor_iff bit_exp_iff)
  with i show ?thesis by blast
qed

lemma xor_lsb_less: "x \<noteq> 0 \<Longrightarrow> x XOR lsb_of x < x"
proof (induction x rule: less_induct)
  case (less x)
  show ?case
  proof (cases "odd x")
    case True
    then show ?thesis using odd_pos[of x] by (simp add: lsb_of_odd xor_Suc_0_eq)
  next
    case False
    with less.prems have h: "x div 2 < x" "x div 2 \<noteq> 0" by presburger+
    have "x XOR lsb_of x = 2 * (x div 2 XOR lsb_of (x div 2))"
      using False by (subst xor_nat_rec) (simp add: lsb_of_even)
    also have "\<dots> < 2 * (x div 2)" using less.IH[OF h] by simp
    also have "\<dots> = x" using False by simp
    finally show ?thesis .
  qed
qed

lemma popcount_xor_lsb: "x \<noteq> 0 \<Longrightarrow> Suc (popcount (x XOR lsb_of x)) = popcount x"
proof -
  assume "x \<noteq> 0"
  from lsb_xor_bits[OF this] obtain i where i: "bit x i"
    "\<forall>j. bit (x XOR lsb_of x) j \<longleftrightarrow> bit x j \<and> j \<noteq> i" by blast
  have "{j. bit (x XOR lsb_of x) j} = {j. bit x j} - {i}" using i(2) by auto
  then have "card {j. bit (x XOR lsb_of x) j} = card {j. bit x j} - 1"
    using i(1) by (simp add: finite_bits_nat)
  moreover have "card {j. bit x j} > 0" using i(1) finite_bits_nat[of x] by (auto simp: card_gt_0_iff)
  ultimately show ?thesis by (simp add: popcount_card)
qed

section \<open>BooleanInterval\<close>

text \<open>
  \<^verbatim>\<open>class BooleanInterval\<close> (lines 87-262): a conjunctive term, the pair of a mask of the
  variables it constrains and their required values. The fields are written \<open>bi_n\<close>,
  \<open>bi_mask\<close> and \<open>bi_value\<close> because \<open>mask\<close> and \<open>value\<close> are taken in HOL.
  Python compares two intervals by \<^verbatim>\<open>__eq__\<close> on \<open>(n, mask, value)\<close>, which is the
  equality of the record.
\<close>

record BooleanInterval =
  bi_n :: nat
  bi_mask :: nat
  bi_value :: nat

text \<open>
  \<^verbatim>\<open>BooleanInterval.__init__\<close> (lines 92-103). The arguments are arbitrary Python
  integers; \<^verbatim>\<open>mask & ((1 << n) - 1)\<close> and \<^verbatim>\<open>value & self.mask\<close> are non-negative,
  so the stored fields are naturals. Every interval of the program is made here.
\<close>

definition BooleanInterval_init :: "nat \<Rightarrow> int \<Rightarrow> int \<Rightarrow> BooleanInterval" where
  "BooleanInterval_init n m v =
     (let msk = m AND (2 ^ n - 1)
      in \<lparr>bi_n = n, bi_mask = nat msk, bi_value = nat (v AND msk)\<rparr>)"

text \<open>
  \<^verbatim>\<open>covers_point\<close> (line 145): \<^verbatim>\<open>(point & self.mask) == self.value\<close>.
\<close>

definition covers_point :: "BooleanInterval \<Rightarrow> nat \<Rightarrow> bool" where
  "covers_point t point \<longleftrightarrow> point AND bi_mask t = bi_value t"

text \<open>
  The inner loop of \<^verbatim>\<open>covers_mask\<close> and \<^verbatim>\<open>get_all_points_mask\<close> (lines 169-176 and
  199-206, the same text twice): \<^verbatim>\<open>for _ in range(free_count)\<close> with its
  \<^verbatim>\<open>break\<close> when \<open>temp_free\<close> is exhausted; it spreads the low bits of \<open>temp_val\<close>
  over the positions of the free variables and returns the assembled point.
\<close>

fun collect_point :: "nat \<Rightarrow> nat \<Rightarrow> nat \<Rightarrow> nat \<Rightarrow> nat" where
  "collect_point 0 point temp_free temp_val = point"
| "collect_point (Suc k) point temp_free temp_val =
     (if temp_free = 0 then point
      else let lsb = lsb_of temp_free;
               point' = (if temp_val AND 1 \<noteq> 0 then point OR lsb else point)
           in collect_point k point' (temp_free XOR lsb) (drop_bit 1 temp_val))"

text \<open>
  \<^verbatim>\<open>covers_mask\<close> (lines 147-182). \<^verbatim>\<open>1 << k\<close> is written \<open>2 ^ k\<close>. The
  subtraction \<^verbatim>\<open>self.n - bin(self.mask).count('1')\<close> never goes below zero on an
  interval made by the constructor, whose mask has at most \<open>n\<close> bits.
\<close>

definition covers_mask :: "BooleanInterval \<Rightarrow> nat \<Rightarrow> nat" where
  "covers_mask t m =
     (if bi_mask t = 0 then m
      else let free_vars = (2 ^ bi_n t - 1) XOR bi_mask t;
               free_count = bi_n t - popcount (bi_mask t)
           in fold (\<lambda>free_val result.
                      let point = collect_point free_count (bi_value t) free_vars free_val
                      in if point < 2 ^ bi_n t \<and> m AND 2 ^ point \<noteq> 0
                         then result OR 2 ^ point else result)
                [0..<2 ^ free_count] 0)"

text \<open>
  \<^verbatim>\<open>get_all_points_mask\<close> (lines 184-211).
\<close>

definition get_all_points_mask :: "BooleanInterval \<Rightarrow> nat" where
  "get_all_points_mask t =
     (if bi_mask t = 0 then 2 ^ (2 ^ bi_n t) - 1
      else let free_vars = (2 ^ bi_n t - 1) XOR bi_mask t;
               free_count = bi_n t - popcount (bi_mask t)
           in fold (\<lambda>free_val result.
                      let point = collect_point free_count (bi_value t) free_vars free_val
                      in if point < 2 ^ bi_n t then result OR 2 ^ point else result)
                [0..<2 ^ free_count] 0)"

text \<open>
  \<^verbatim>\<open>is_subset_of\<close> (lines 213-218).
\<close>

definition is_subset_of :: "BooleanInterval \<Rightarrow> BooleanInterval \<Rightarrow> bool" where
  "is_subset_of a b \<longleftrightarrow>
     bi_mask a AND bi_mask b = bi_mask b \<and> bi_value a AND bi_mask b = bi_value b"

text \<open>
  What the constructor establishes, used as the invariant of every interval in the proofs.
\<close>

definition valid_interval :: "BooleanInterval \<Rightarrow> bool" where
  "valid_interval t \<longleftrightarrow> bi_mask t < 2 ^ bi_n t \<and> bi_value t AND bi_mask t = bi_value t"

lemma bit_exp_minus_1: "bit ((2::nat) ^ n - 1) j \<longleftrightarrow> j < n"
proof -
  have "(2::nat) ^ n - 1 = mask n" by (simp only: mask_eq_exp_minus_1)
  then show ?thesis by (simp only: bit_mask_iff) simp
qed

lemma bit_exp_minus_Suc_0: "bit ((2::nat) ^ n - Suc 0) j \<longleftrightarrow> j < n"
  using bit_exp_minus_1[of n j] by simp

lemma popcount_0: "popcount 0 = 0"
  by (simp add: popcount.simps)

lemma less_exp_bits: "(m::nat) < 2 ^ n \<longleftrightarrow> (\<forall>j. bit m j \<longrightarrow> j < n)"
proof
  assume "m < 2 ^ n"
  then have "take_bit n m = m" by (rule take_bit_nat_eq_self)
  then have "\<And>j. bit m j = bit (take_bit n m) j" by simp
  then show "\<forall>j. bit m j \<longrightarrow> j < n" unfolding bit_take_bit_iff by blast
next
  assume "\<forall>j. bit m j \<longrightarrow> j < n"
  then have "take_bit n m = m" by (intro bit_eqI) (auto simp: bit_take_bit_iff)
  then show "m < 2 ^ n" by (simp add: take_bit_nat_eq_self_iff)
qed

lemma valid_init: "valid_interval (BooleanInterval_init n m v)"
proof -
  let ?msk = "m AND (2 ^ n - 1)"
  have nonneg: "0 \<le> ?msk" by simp
  have "nat ?msk < 2 ^ n"
  proof (subst less_exp_bits, intro allI impI)
    fix j assume "bit (nat ?msk) j"
    then have "bit ((2::int) ^ n - 1) j" by (simp add: bit_nat_iff bit_and_iff)
    then show "j < n" by (simp flip: mask_eq_exp_minus_1 add: bit_mask_iff)
  qed
  moreover have "nat (v AND ?msk) AND nat ?msk = nat (v AND ?msk)"
    by (rule bit_eqI) (auto simp: bit_nat_iff bit_and_iff)
  ultimately show ?thesis by (simp add: valid_interval_def BooleanInterval_init_def Let_def)
qed

lemma init_n: "bi_n (BooleanInterval_init n m v) = n"
  by (simp add: BooleanInterval_init_def Let_def)

lemma collect_point_keeps: "bit pt j \<Longrightarrow> bit (collect_point k pt tf tv) j"
  by (induction k arbitrary: pt tf tv) (auto simp: Let_def bit_or_iff)

lemma collect_point_bits: "bit (collect_point k pt tf tv) j \<Longrightarrow> bit pt j \<or> bit tf j"
proof (induction k arbitrary: pt tf tv)
  case 0 then show ?case by simp
next
  case (Suc k)
  show ?case
  proof (cases "tf = 0")
    case True with Suc.prems show ?thesis by simp
  next
    case False
    from lsb_xor_bits[OF this] obtain i where i: "lsb_of tf = 2 ^ i" "bit tf i"
      "\<forall>j. bit (tf XOR lsb_of tf) j \<longleftrightarrow> bit tf j \<and> j \<noteq> i" by blast
    let ?pt = "if tv AND 1 \<noteq> 0 then pt OR lsb_of tf else pt"
    from Suc.prems False have "bit (collect_point k ?pt (tf XOR lsb_of tf) (drop_bit 1 tv)) j"
      by (simp add: Let_def)
    from Suc.IH[OF this] have "bit ?pt j \<or> bit (tf XOR lsb_of tf) j" .
    then show ?thesis using i by (auto simp: bit_or_iff bit_exp_iff split: if_splits)
  qed
qed

lemma collect_point_complete:
  "popcount tf = k \<Longrightarrow> \<forall>j. bit s j \<longrightarrow> bit tf j \<Longrightarrow>
     \<exists>tv<2 ^ k. \<forall>pt. collect_point k pt tf tv = pt OR s"
proof (induction k arbitrary: tf s)
  case 0
  then have "{j. bit tf j} = {}" using finite_bits_nat[of tf] by (simp add: popcount_card)
  with 0 have "\<forall>j. \<not> bit s j" by auto
  then have "s = 0" by (intro bit_eqI) simp
  then show ?case by simp
next
  case (Suc k)
  have nz: "tf \<noteq> 0"
  proof
    assume "tf = 0"
    with Suc.prems(1) show False by (simp add: popcount_0)
  qed
  from lsb_xor_bits[OF nz] obtain i where i: "lsb_of tf = 2 ^ i" "bit tf i"
      "\<forall>j. bit (tf XOR lsb_of tf) j \<longleftrightarrow> bit tf j \<and> j \<noteq> i" by blast
  let ?tf = "tf XOR lsb_of tf"
  let ?s = "and_not s (2 ^ i)"
  have pc: "popcount ?tf = k" using popcount_xor_lsb[OF nz] Suc.prems(1) by simp
  have sub: "\<forall>j. bit ?s j \<longrightarrow> bit ?tf j" using Suc.prems(2) i(3) by (auto simp: bit_and_not bit_exp_iff)
  from Suc.IH[OF pc sub] obtain tv where tv: "tv < 2 ^ k" "\<forall>pt. collect_point k pt ?tf tv = pt OR ?s"
    by blast
  define tv' where "tv' = 2 * tv + (if bit s i then 1 else 0)"
  have "tv' < 2 ^ Suc k" using tv(1) by (simp add: tv'_def)
  moreover have "\<forall>pt. collect_point (Suc k) pt tf tv' = pt OR s"
  proof
    fix pt
    have d: "drop_bit 1 tv' = tv" by (simp add: tv'_def drop_bit_Suc)
    have o: "tv' AND 1 = 0 \<longleftrightarrow> \<not> bit s i" "0 < tv' AND 1 \<longleftrightarrow> bit s i"
      by (simp_all add: tv'_def and_one_eq)
    have "collect_point (Suc k) pt tf tv' = (if bit s i then pt OR 2 ^ i else pt) OR ?s"
      using nz tv(2) by (simp add: Let_def d o i(1) del: One_nat_def)
    also have "\<dots> = pt OR s"
      by (rule bit_eqI) (auto simp: bit_or_iff bit_and_not bit_exp_iff)
    finally show "collect_point (Suc k) pt tf tv' = pt OR s" .
  qed
  ultimately show ?case by blast
qed

lemma valid_mask_bits: "valid_interval t \<Longrightarrow> bit (bi_mask t) j \<Longrightarrow> j < bi_n t"
  by (simp add: valid_interval_def less_exp_bits)

lemma valid_value_bits: "valid_interval t \<Longrightarrow> bit (bi_value t) j \<Longrightarrow> bit (bi_mask t) j"
proof -
  assume "valid_interval t" and b: "bit (bi_value t) j"
  then have "bi_value t AND bi_mask t = bi_value t" by (simp add: valid_interval_def)
  then have "bit (bi_value t AND bi_mask t) j" using b by simp
  then show ?thesis by (simp add: bit_and_iff)
qed

lemma covers_point_bits:
  "covers_point t p \<longleftrightarrow> (\<forall>j. bit p j \<and> bit (bi_mask t) j \<longleftrightarrow> bit (bi_value t) j)"
  by (simp add: covers_point_def bit_eq_iff bit_and_iff)

lemma free_vars_bits:
  "valid_interval t \<Longrightarrow>
     bit ((2 ^ bi_n t - 1) XOR bi_mask t) j \<longleftrightarrow> j < bi_n t \<and> \<not> bit (bi_mask t) j"
  using valid_mask_bits[of t j] by (auto simp: bit_xor_iff bit_exp_minus_Suc_0)

lemma free_count_eq:
  assumes "valid_interval t"
  shows "popcount ((2 ^ bi_n t - 1) XOR bi_mask t) = bi_n t - popcount (bi_mask t)"
proof -
  have sub: "{j. bit (bi_mask t) j} \<subseteq> {..<bi_n t}"
    using valid_mask_bits[OF assms] by auto
  have "{j. bit ((2 ^ bi_n t - 1) XOR bi_mask t) j} = {..<bi_n t} - {j. bit (bi_mask t) j}"
    using free_vars_bits[OF assms] by auto
  then have "card {j. bit ((2 ^ bi_n t - 1) XOR bi_mask t) j} = card {..<bi_n t} - card {j. bit (bi_mask t) j}"
    using sub by (simp add: card_Diff_subset finite_bits_nat)
  then show ?thesis by (simp add: popcount_card)
qed

lemma interval_points_char:
  assumes v: "valid_interval t"
  shows "(\<exists>fv<2 ^ (bi_n t - popcount (bi_mask t)).
            collect_point (bi_n t - popcount (bi_mask t)) (bi_value t)
               ((2 ^ bi_n t - 1) XOR bi_mask t) fv = p)
         \<longleftrightarrow> p < 2 ^ bi_n t \<and> covers_point t p"
    (is "(\<exists>fv<2 ^ ?k. collect_point ?k ?V ?F fv = p) \<longleftrightarrow> _")
proof
  assume "\<exists>fv<2 ^ ?k. collect_point ?k ?V ?F fv = p"
  then obtain fv where p: "p = collect_point ?k ?V ?F fv" by blast
  have up: "\<And>j. bit p j \<Longrightarrow> bit ?V j \<or> bit ?F j"
    unfolding p by (rule collect_point_bits)
  have lo: "\<And>j. bit ?V j \<Longrightarrow> bit p j"
    unfolding p by (rule collect_point_keeps)
  have "p < 2 ^ bi_n t"
    unfolding less_exp_bits
    using up free_vars_bits[OF v] valid_value_bits[OF v] valid_mask_bits[OF v] by blast
  moreover have "covers_point t p"
    unfolding covers_point_bits
    using up lo free_vars_bits[OF v] valid_value_bits[OF v] by blast
  ultimately show "p < 2 ^ bi_n t \<and> covers_point t p" ..
next
  assume a: "p < 2 ^ bi_n t \<and> covers_point t p"
  then have pn: "\<And>j. bit p j \<Longrightarrow> j < bi_n t" by (simp add: less_exp_bits)
  from a have cp: "\<And>j. bit p j \<and> bit (bi_mask t) j \<longleftrightarrow> bit ?V j"
    by (simp add: covers_point_bits)
  let ?s = "p AND ?F"
  have "\<forall>j. bit ?s j \<longrightarrow> bit ?F j" by (simp add: bit_and_iff)
  from collect_point_complete[OF free_count_eq[OF v] this]
  obtain fv where fv: "fv < 2 ^ ?k" "\<forall>pt. collect_point ?k pt ?F fv = pt OR ?s" by blast
  have "?V OR ?s = p"
  proof (rule bit_eqI)
    fix j show "bit (?V OR ?s) j = bit p j"
      using cp[of j] pn[of j] free_vars_bits[OF v, of j]
      unfolding bit_or_iff bit_and_iff by blast
  qed
  with fv show "\<exists>fv<2 ^ ?k. collect_point ?k ?V ?F fv = p" by auto
qed

lemma fold_or_bits:
  "bit (fold (\<lambda>x r. if P x then r OR 2 ^ g x else r) xs (r0::nat)) p
     \<longleftrightarrow> bit r0 p \<or> (\<exists>x\<in>set xs. P x \<and> g x = p)"
  by (induction xs arbitrary: r0) (auto simp: bit_or_iff bit_exp_iff)

lemma covers_mask_bits_gen:
  assumes v: "valid_interval t"
  shows "bit (covers_mask t m) p \<longleftrightarrow>
           bit m p \<and> covers_point t p \<and> (bi_mask t = 0 \<or> p < 2 ^ bi_n t)"
proof (cases "bi_mask t = 0")
  case True
  with v have "bi_value t = 0" by (simp add: valid_interval_def)
  with True show ?thesis by (simp add: covers_mask_def covers_point_def)
next
  case False
  let ?k = "bi_n t - popcount (bi_mask t)"
  let ?cp = "collect_point ?k (bi_value t) ((2 ^ bi_n t - 1) XOR bi_mask t)"
  have "covers_mask t m = fold (\<lambda>x r. if ?cp x < 2 ^ bi_n t \<and> bit m (?cp x) then r OR 2 ^ ?cp x else r)
           [0..<2 ^ ?k] 0"
    using False by (simp add: covers_mask_def Let_def and_exp_eq_0_iff_not_bit del: One_nat_def)
  then have "bit (covers_mask t m) p \<longleftrightarrow>
       (\<exists>x\<in>set [0..<2 ^ ?k]. (?cp x < 2 ^ bi_n t \<and> bit m (?cp x)) \<and> ?cp x = p)"
    by (simp only: fold_or_bits) simp
  also have "\<dots> \<longleftrightarrow> (\<exists>fv<2 ^ ?k. ?cp fv = p) \<and> p < 2 ^ bi_n t \<and> bit m p" by auto
  also have "\<dots> \<longleftrightarrow> bit m p \<and> covers_point t p \<and> p < 2 ^ bi_n t"
    unfolding interval_points_char[OF v] by blast
  finally show ?thesis using False by simp
qed

lemma get_all_points_mask_bits:
  assumes v: "valid_interval t"
  shows "bit (get_all_points_mask t) p \<longleftrightarrow> p < 2 ^ bi_n t \<and> covers_point t p"
proof (cases "bi_mask t = 0")
  case True
  with v have "bi_value t = 0" by (simp add: valid_interval_def)
  with True show ?thesis by (simp add: get_all_points_mask_def covers_point_def bit_exp_minus_Suc_0)
next
  case False
  let ?k = "bi_n t - popcount (bi_mask t)"
  let ?cp = "collect_point ?k (bi_value t) ((2 ^ bi_n t - 1) XOR bi_mask t)"
  have "get_all_points_mask t = fold (\<lambda>x r. if ?cp x < 2 ^ bi_n t then r OR 2 ^ ?cp x else r)
           [0..<2 ^ ?k] 0"
    using False by (simp add: get_all_points_mask_def Let_def del: One_nat_def)
  then have "bit (get_all_points_mask t) p \<longleftrightarrow>
       (\<exists>x\<in>set [0..<2 ^ ?k]. ?cp x < 2 ^ bi_n t \<and> ?cp x = p)"
    by (simp only: fold_or_bits) simp
  also have "\<dots> \<longleftrightarrow> (\<exists>fv<2 ^ ?k. ?cp fv = p) \<and> p < 2 ^ bi_n t" by auto
  also have "\<dots> \<longleftrightarrow> p < 2 ^ bi_n t \<and> covers_point t p"
    unfolding interval_points_char[OF v] by blast
  finally show ?thesis .
qed

text \<open>
  Claim C4. For every interval built by the constructor and every candidate bit mask
  \<open>m\<close> over the points \<open>[0, 2 ^ n)\<close>, bit \<open>p\<close> of \<open>covers_mask t m\<close> is set
  exactly when bit \<open>p\<close> of \<open>m\<close> is set and \<open>covers_point t p\<close> holds; when the
  mask of the interval is zero the candidate mask is returned unchanged.
\<close>

theorem covers_mask_pointwise:
  assumes "m < 2 ^ (2 ^ n)"
  shows "(bit (covers_mask (BooleanInterval_init n mk v) m) p
            \<longleftrightarrow> bit m p \<and> covers_point (BooleanInterval_init n mk v) p)
         \<and> (bi_mask (BooleanInterval_init n mk v) = 0
              \<longrightarrow> covers_mask (BooleanInterval_init n mk v) m = m)"
proof -
  let ?t = "BooleanInterval_init n mk v"
  have "bit m p \<Longrightarrow> p < 2 ^ bi_n ?t"
    using assms by (simp add: less_exp_bits init_n)
  then have "bit (covers_mask ?t m) p \<longleftrightarrow> bit m p \<and> covers_point ?t p"
    using covers_mask_bits_gen[OF valid_init, of n mk v m p] by blast
  moreover have "bi_mask ?t = 0 \<longrightarrow> covers_mask ?t m = m"
    by (simp add: covers_mask_def)
  ultimately show ?thesis ..
qed

theorem covers_mask_pointwise_witness:
  "(251::nat) < 2 ^ (2 ^ 3)
   \<and> (bit (covers_mask (BooleanInterval_init 3 5 4) 251) 6
        \<longleftrightarrow> bit (251::nat) 6 \<and> covers_point (BooleanInterval_init 3 5 4) 6)
   \<and> covers_mask (BooleanInterval_init 3 5 4) 251 = 80
   \<and> bi_mask (BooleanInterval_init 3 0 0) = 0
   \<and> covers_mask (BooleanInterval_init 3 0 0) 251 = 251"
proof -
  have h: "(251::nat) < 2 ^ (2 ^ 3)" by simp
  have e: "covers_mask (BooleanInterval_init 3 5 4) 251 = 80" by code_simp
  have z: "bi_mask (BooleanInterval_init 3 0 0) = 0" by code_simp
  show ?thesis
    using h e z covers_mask_pointwise[OF h, of 5 4 6] covers_mask_pointwise[OF h, of 0 0 0]
    by simp
qed

text \<open>
  \<^verbatim>\<open>expand\<close> (lines 220-256): the \<^verbatim>\<open>while vars_in_interval\<close> loop, one round per
  set bit of the mask from the lowest upwards. It terminates because each round clears
  the lowest set bit.
\<close>

function expand_loop ::
  "BooleanInterval \<Rightarrow> nat \<Rightarrow> nat \<Rightarrow> nat \<Rightarrow> BooleanInterval list \<Rightarrow> BooleanInterval list" where
  "expand_loop t allowed_mask current_points_mask vars_in_interval expansions =
     (if vars_in_interval = 0 then expansions
      else let var_bit = lsb_of vars_in_interval;
               new_mask = bi_mask t XOR var_bit;
               new_value = bi_value t AND new_mask;
               new_interval = BooleanInterval_init (bi_n t) (int new_mask) (int new_value);
               new_points_mask = get_all_points_mask new_interval;
               new_points = and_not new_points_mask current_points_mask;
               expansions' = (if and_not new_points allowed_mask = 0
                              then expansions @ [new_interval] else expansions)
           in expand_loop t allowed_mask current_points_mask
                (vars_in_interval XOR var_bit) expansions')"
  by pat_completeness auto
termination
  by (relation "measure (\<lambda>(t, a, c, v, e). v)") (auto simp: xor_lsb_less)

declare expand_loop.simps [simp del]

definition expand :: "BooleanInterval \<Rightarrow> nat \<Rightarrow> BooleanInterval list" where
  "expand t allowed_mask =
     expand_loop t allowed_mask (get_all_points_mask t) (bi_mask t) []"

text \<open>
  \<^verbatim>\<open>size\<close> (lines 258-262) and \<^verbatim>\<open>__lt__\<close> (lines 131-133), the order used by
  \<^verbatim>\<open>list.sort\<close>: larger intervals first.
\<close>

definition size_of :: "BooleanInterval \<Rightarrow> nat" where
  "size_of t = 2 ^ (bi_n t - popcount (bi_mask t))"

definition interval_lt :: "BooleanInterval \<Rightarrow> BooleanInterval \<Rightarrow> bool" where
  "interval_lt a b \<longleftrightarrow> size_of a > size_of b"

lemma bits_psubset_popcount:
  "\<forall>j. bit a j \<longrightarrow> bit b j \<Longrightarrow> bit b i \<Longrightarrow> \<not> bit a i \<Longrightarrow> popcount a < popcount b"
proof -
  assume "\<forall>j. bit a j \<longrightarrow> bit b j" "bit b i" "\<not> bit a i"
  then have "{j. bit a j} \<subset> {j. bit b j}" by auto
  then show ?thesis unfolding popcount_card
    by (intro psubset_card_mono) (simp_all add: finite_bits_nat)
qed

lemma init_mask_bits:
  "bit (bi_mask (BooleanInterval_init n (int m) v)) j \<longleftrightarrow> bit m j \<and> j < n"
proof -
  have "bit ((2::int) ^ n - 1) j \<longleftrightarrow> j < n"
    by (simp flip: mask_eq_exp_minus_1 add: bit_mask_iff)
  then show ?thesis
    by (simp add: BooleanInterval_init_def Let_def bit_nat_iff bit_and_iff bit_of_nat_iff_bit)
qed

lemma init_value_bits:
  "bit (bi_value (BooleanInterval_init n (int m) (int v))) j \<longleftrightarrow> bit v j \<and> bit m j \<and> j < n"
proof -
  have "bit ((2::int) ^ n - 1) j \<longleftrightarrow> j < n"
    by (simp flip: mask_eq_exp_minus_1 add: bit_mask_iff)
  then show ?thesis
    by (auto simp add: BooleanInterval_init_def Let_def bit_nat_iff bit_and_iff bit_of_nat_iff_bit)
qed

lemma expand_loop_popcount:
  "e \<in> set (expand_loop t a c vars acc) \<Longrightarrow> \<forall>j. bit vars j \<longrightarrow> bit (bi_mask t) j \<Longrightarrow>
     e \<in> set acc \<or> popcount (bi_mask e) < popcount (bi_mask t)"
proof (induction t a c vars acc rule: expand_loop.induct)
  case (1 t a c vars acc)
  show ?case
  proof (cases "vars = 0")
    case True
    with "1.prems" show ?thesis by (simp add: expand_loop.simps)
  next
    case False
    from lsb_xor_bits[OF this] obtain i where i: "lsb_of vars = 2 ^ i" "bit vars i"
      "\<forall>j. bit (vars XOR lsb_of vars) j \<longleftrightarrow> bit vars j \<and> j \<noteq> i" by blast
    define new where "new = BooleanInterval_init (bi_n t) (int (bi_mask t XOR lsb_of vars))
        (int (bi_value t AND (bi_mask t XOR lsb_of vars)))"
    define acc' where "acc' = (if and_not (and_not (get_all_points_mask new) c) a = 0
         then acc @ [new] else acc)"
    have step: "expand_loop t a c vars acc = expand_loop t a c (vars XOR lsb_of vars) acc'"
      using False by (subst expand_loop.simps) (simp add: Let_def new_def acc'_def)
    have sub: "\<forall>j. bit (vars XOR lsb_of vars) j \<longrightarrow> bit (bi_mask t) j"
      using i(3) "1.prems"(2) by blast
    have Mi: "bit (bi_mask t) i" using i(2) "1.prems"(2) by blast
    have "e \<in> set acc' \<or> popcount (bi_mask e) < popcount (bi_mask t)"
      using "1.IH"[OF False refl refl refl refl refl refl] "1.prems"(1) sub
      unfolding step new_def acc'_def by (simp add: Let_def)
    moreover have "popcount (bi_mask new) < popcount (bi_mask t)"
    proof (rule bits_psubset_popcount[where i = i])
      show "\<forall>j. bit (bi_mask new) j \<longrightarrow> bit (bi_mask t) j"
        unfolding new_def init_mask_bits using Mi by (auto simp: bit_xor_iff i(1) bit_exp_iff)
      show "bit (bi_mask t) i" by (rule Mi)
      show "\<not> bit (bi_mask new) i"
        unfolding new_def init_mask_bits using Mi by (auto simp: bit_xor_iff i(1) bit_exp_iff)
    qed
    ultimately show ?thesis by (auto simp: acc'_def split: if_splits)
  qed
qed

lemma expand_popcount:
  "e \<in> set (expand t a) \<Longrightarrow> popcount (bi_mask e) < popcount (bi_mask t)"
  using expand_loop_popcount[of e t a "get_all_points_mask t" "bi_mask t" "[]"]
  by (simp add: expand_def)

section \<open>PartialBooleanFunction\<close>

text \<open>
  \<^verbatim>\<open>class PartialBooleanFunction\<close> (lines 6-43). Construction raises
  \<^verbatim>\<open>ValueError\<close> in two places: \<^verbatim>\<open>1 << n\<close> on a negative \<open>n\<close> and the validation
  at the end.
\<close>

datatype error = NegativeShiftCount | OnesDcaresIntersect

record PartialBooleanFunction =
  pf_n :: nat
  total_points :: nat
  ones_mask :: nat
  dcares_mask :: nat
  significant_mask :: nat
  zeros_mask :: nat

text \<open>
  The two \<^verbatim>\<open>for val in ...\<close> loops (lines 27-33): a value outside
  \<^verbatim>\<open>0 <= val < total_points\<close> is skipped.
\<close>

fun set_points :: "nat \<Rightarrow> int list \<Rightarrow> nat \<Rightarrow> nat" where
  "set_points tpoints [] acc = acc"
| "set_points tpoints (val # vals) acc =
     set_points tpoints vals
       (if 0 \<le> val \<and> val < int tpoints then acc OR 2 ^ nat val else acc)"

text \<open>
  \<^verbatim>\<open>PartialBooleanFunction.__init__\<close> (lines 11-43); the validation comes last, as in
  the source.
\<close>

definition PartialBooleanFunction_init ::
  "int \<Rightarrow> int list \<Rightarrow> int list \<Rightarrow> error + PartialBooleanFunction" where
  "PartialBooleanFunction_init n ones dcares =
     (if n < 0 then Inl NegativeShiftCount
      else let tpoints = 2 ^ nat n;
               ones_m = set_points tpoints ones 0;
               dcares_m = set_points tpoints dcares 0;
               significant = ones_m OR dcares_m;
               zeros = and_not (2 ^ tpoints - 1) significant
           in if ones_m AND dcares_m \<noteq> 0 then Inl OnesDcaresIntersect
              else Inr \<lparr>pf_n = nat n, total_points = tpoints, ones_mask = ones_m,
                        dcares_mask = dcares_m, significant_mask = significant,
                        zeros_mask = zeros\<rparr>)"

section \<open>MaximalIntervalsMinimizer\<close>

text \<open>
  \<^verbatim>\<open>class MaximalIntervalsMinimizer\<close> (lines 265-493). The object carries two cached
  lists that its methods overwrite, so every method takes the state and returns the result
  together with the new state.
\<close>

record MaximalIntervalsMinimizer =
  func :: PartialBooleanFunction
  mm_n :: nat
  all_intervals :: "BooleanInterval list"
  essential_intervals :: "BooleanInterval list"

definition MaximalIntervalsMinimizer_init :: "PartialBooleanFunction \<Rightarrow> MaximalIntervalsMinimizer" where
  "MaximalIntervalsMinimizer_init f =
     \<lparr>func = f, mm_n = pf_n f, all_intervals = [], essential_intervals = []\<rparr>"

text \<open>
  The seed loop of \<^verbatim>\<open>find_all_max_intervals\<close> (lines 285-295): one fully specified
  interval per set bit of \<open>significant_mask\<close>.
\<close>

function start_intervals_loop :: "nat \<Rightarrow> nat \<Rightarrow> BooleanInterval list \<Rightarrow> BooleanInterval list" where
  "start_intervals_loop n temp start_intervals =
     (if temp = 0 then start_intervals
      else let lsb = lsb_of temp;
               point = bit_length lsb - 1;
               full_mask = 2 ^ n - 1;
               interval = BooleanInterval_init n (int full_mask) (int point)
           in start_intervals_loop n (temp XOR lsb) (start_intervals @ [interval]))"
  by pat_completeness auto
termination
  by (relation "measure (\<lambda>(n, temp, acc). temp)") (auto simp: xor_lsb_less)

declare start_intervals_loop.simps [simp del]

text \<open>
  The breadth-first loop (lines 300-323) on the queue, the visited set and the list of
  recorded candidates; it returns the last two. Its termination does not need the visited
  set: every expansion has fewer literals than the interval it replaces in the queue, so
  the multiset of the literal counts in the queue decreases.
\<close>

function bfs_loop ::
  "nat \<Rightarrow> nat \<Rightarrow> BooleanInterval list \<Rightarrow> BooleanInterval set \<Rightarrow> BooleanInterval list
     \<Rightarrow> BooleanInterval set \<times> BooleanInterval list" where
  "bfs_loop significant ones [] visited max_intervals = (visited, max_intervals)"
| "bfs_loop significant ones (current # queue) visited max_intervals =
     (if current \<in> visited then bfs_loop significant ones queue visited max_intervals
      else let visited' = insert current visited;
               expansions = expand current significant
           in if expansions \<noteq> []
              then bfs_loop significant ones
                     (queue @ filter (\<lambda>exp. exp \<notin> visited') expansions) visited' max_intervals
              else if covers_mask current ones \<noteq> 0
                   then bfs_loop significant ones queue visited' (max_intervals @ [current])
                   else bfs_loop significant ones queue visited' max_intervals)"
  by pat_completeness auto
termination
proof (relation "inv_image (mult {(a, b). a < b})
    (\<lambda>(s, ones, queue, visited, acc). mset (map (\<lambda>t. popcount (bi_mask t)) queue))")
  show "wf (inv_image (mult {(a::nat, b). a < b}) (\<lambda>(s, ones, queue, visited, acc). mset (map (\<lambda>t. popcount (bi_mask t)) queue)))"
    by (intro wf_inv_image wf_mult) (simp add: wf)
next
  fix significant ones :: nat and current :: BooleanInterval and queue max_intervals :: "BooleanInterval list"
    and visited x :: "BooleanInterval set" and xa :: "BooleanInterval list"
  assume "current \<notin> visited" "x = insert current visited" "xa = expand current significant" "xa \<noteq> []"
  let ?f = "\<lambda>t. popcount (bi_mask t)"
  let ?K = "mset (map ?f (filter (\<lambda>exp. exp \<notin> x) xa))"
  have "(mset (map ?f queue) + ?K, mset (map ?f queue) + {#?f current#}) \<in> mult {(a, b). a < b}"
  proof (rule one_step_implies_mult)
    show "{#?f current#} \<noteq> {#}" by simp
    show "\<forall>k\<in>#?K. \<exists>j\<in>#{#?f current#}. (k, j) \<in> {(a, b). a < b}"
      using expand_popcount[of _ current significant] \<open>xa = expand current significant\<close> by auto
  qed
  then show "((significant, ones, queue @ filter (\<lambda>exp. exp \<notin> x) xa, x, max_intervals),
         significant, ones, current # queue, visited, max_intervals)
        \<in> inv_image (mult {(a, b). a < b}) (\<lambda>(s, ones, queue, visited, acc). mset (map ?f queue))"
    by simp
qed (auto intro!: subset_implies_mult)

declare bfs_loop.simps [simp del]

text \<open>
  Redundancy elimination (lines 326-334): the interval at index \<open>i\<close> is dropped when it
  is a subset of the interval at some other index \<open>j\<close>.
\<close>

definition unique_intervals_of :: "BooleanInterval list \<Rightarrow> BooleanInterval list" where
  "unique_intervals_of max_intervals =
     map snd (filter (\<lambda>(i, interval).
                 \<not> list_ex (\<lambda>(j, other). i \<noteq> j \<and> is_subset_of interval other)
                     (enumerate 0 max_intervals))
              (enumerate 0 max_intervals))"

text \<open>
  \<^verbatim>\<open>unique_intervals.sort()\<close> (line 337). Python's sort is stable and compares by
  \<^verbatim>\<open>__lt__\<close> only; for such an order the stable sorted list is unique, and insertion
  from the right computes it.
\<close>

fun insort_interval :: "BooleanInterval \<Rightarrow> BooleanInterval list \<Rightarrow> BooleanInterval list" where
  "insort_interval x [] = [x]"
| "insort_interval x (y # ys) =
     (if interval_lt y x then y # insort_interval x ys else x # y # ys)"

definition sort_intervals :: "BooleanInterval list \<Rightarrow> BooleanInterval list" where
  "sort_intervals xs = foldr insort_interval xs []"

text \<open>
  \<^verbatim>\<open>find_all_max_intervals\<close> (lines 275-340).
\<close>

definition find_all_max_intervals ::
  "MaximalIntervalsMinimizer \<Rightarrow> BooleanInterval list \<times> MaximalIntervalsMinimizer" where
  "find_all_max_intervals st =
     (let significant = significant_mask (func st);
          start_intervals = start_intervals_loop (mm_n st) significant [];
          (visited, max_intervals) =
             bfs_loop significant (ones_mask (func st)) start_intervals {} [];
          unique_intervals = sort_intervals (unique_intervals_of max_intervals)
      in (unique_intervals, st\<lparr>all_intervals := unique_intervals\<rparr>))"

text \<open>
  The inner \<^verbatim>\<open>for interval in ...\<close> loop of both greedy selections (lines 391-403 and
  455-467, the same text twice): the first interval not yet chosen with the strictly
  largest number of covered remaining points.
\<close>

definition select_best ::
  "BooleanInterval list \<Rightarrow> BooleanInterval list \<Rightarrow> nat \<Rightarrow> BooleanInterval option \<times> nat" where
  "select_best intervals chosen remaining =
     fold (\<lambda>interval (best_interval, best_coverage).
             if interval \<in> set chosen then (best_interval, best_coverage)
             else let coverage = covers_mask interval remaining;
                      coverage_count = popcount coverage
                  in if coverage_count > best_coverage then (Some interval, coverage_count)
                     else (best_interval, best_coverage))
          intervals (None, 0)"

lemma select_best_fold_inv:
  "fold (\<lambda>interval (best_interval, best_coverage).
             if interval \<in> set chosen then (best_interval, best_coverage)
             else let coverage = covers_mask interval remaining;
                      coverage_count = popcount coverage
                  in if coverage_count > best_coverage then (Some interval, coverage_count)
                     else (best_interval, best_coverage))
          intervals (b0, c0) = (Some b, c) \<Longrightarrow>
   (b0 = Some b \<and> c0 = c) \<or>
   (b \<in> set intervals \<and> b \<notin> set chosen \<and> c = popcount (covers_mask b remaining) \<and> c0 < c)"
proof (induction intervals arbitrary: b0 c0)
  case Nil
  then show ?case by simp
next
  case (Cons x xs)
  show ?case
  proof (cases "x \<notin> set chosen \<and> popcount (covers_mask x remaining) > c0")
    case True
    with Cons.prems have "fold (\<lambda>interval (best_interval, best_coverage).
             if interval \<in> set chosen then (best_interval, best_coverage)
             else let coverage = covers_mask interval remaining;
                      coverage_count = popcount coverage
                  in if coverage_count > best_coverage then (Some interval, coverage_count)
                     else (best_interval, best_coverage))
          xs (Some x, popcount (covers_mask x remaining)) = (Some b, c)"
      by (simp add: Let_def)
    from Cons.IH[OF this] True show ?thesis by auto
  next
    case False
    with Cons.prems have "fold (\<lambda>interval (best_interval, best_coverage).
             if interval \<in> set chosen then (best_interval, best_coverage)
             else let coverage = covers_mask interval remaining;
                      coverage_count = popcount coverage
                  in if coverage_count > best_coverage then (Some interval, coverage_count)
                     else (best_interval, best_coverage))
          xs (b0, c0) = (Some b, c)"
      by (auto simp add: Let_def split: if_splits)
    from Cons.IH[OF this] show ?thesis by auto
  qed
qed

lemma select_best_Some:
  "select_best intervals chosen remaining = (Some b, c) \<Longrightarrow>
     b \<in> set intervals \<and> b \<notin> set chosen \<and> c = popcount (covers_mask b remaining) \<and> 0 < c"
  unfolding select_best_def by (drule select_best_fold_inv) auto

lemma filter_notin_less:
  "b \<in> set xs \<Longrightarrow> b \<notin> set ys \<Longrightarrow>
     length (filter (\<lambda>t. t \<notin> set (ys @ [b])) xs) < length (filter (\<lambda>t. t \<notin> set ys) xs)"
proof -
  assume b: "b \<in> set xs" "b \<notin> set ys"
  have "length (filter (\<lambda>t. t \<notin> set (ys @ [b])) (filter (\<lambda>t. t \<notin> set ys) xs))
          < length (filter (\<lambda>t. t \<notin> set ys) xs)"
    by (rule length_filter_less[of b]) (use b in auto)
  moreover have "filter (\<lambda>t. t \<notin> set (ys @ [b])) (filter (\<lambda>t. t \<notin> set ys) xs)
         = filter (\<lambda>t. t \<notin> set (ys @ [b])) xs"
    by (auto intro: filter_cong)
  ultimately show ?thesis by simp
qed

text \<open>
  \<^verbatim>\<open>coverage_map\<close> is a Python dictionary, iterated in insertion order by
  \<^verbatim>\<open>items()\<close>: an association list. Assigning to a key keeps its position.
\<close>

fun dict_set :: "('k \<times> 'v) list \<Rightarrow> 'k \<Rightarrow> 'v \<Rightarrow> ('k \<times> 'v) list" where
  "dict_set [] k v = [(k, v)]"
| "dict_set ((k', v') # kvs) k v =
     (if k' = k then (k, v) # kvs else (k', v') # dict_set kvs k v)"

text \<open>
  Lines 354-361 of \<^verbatim>\<open>find_essential_intervals\<close>: one empty entry per point of
  \<open>ones_mask\<close>.
\<close>

function ones_points_loop ::
  "nat \<Rightarrow> nat list \<Rightarrow> (nat \<times> BooleanInterval list) list
     \<Rightarrow> nat list \<times> (nat \<times> BooleanInterval list) list" where
  "ones_points_loop temp ones_points coverage_map =
     (if temp = 0 then (ones_points, coverage_map)
      else let lsb = lsb_of temp;
               point = bit_length lsb - 1
           in ones_points_loop (temp XOR lsb) (ones_points @ [point])
                (dict_set coverage_map point []))"
  by pat_completeness auto
termination
  by (relation "measure (\<lambda>(temp, ps, cm). temp)") (auto simp: xor_lsb_less)

declare ones_points_loop.simps [simp del]

text \<open>
  Lines 367-373: the interval is appended to the entry of every point it covers.
\<close>

function coverage_fill_loop ::
  "BooleanInterval \<Rightarrow> nat \<Rightarrow> (nat \<times> BooleanInterval list) list
     \<Rightarrow> (nat \<times> BooleanInterval list) list" where
  "coverage_fill_loop interval temp coverage_map =
     (if temp = 0 then coverage_map
      else let lsb = lsb_of temp;
               point = bit_length lsb - 1;
               coverage_map' =
                 (case map_of coverage_map point of
                    Some intervals \<Rightarrow> dict_set coverage_map point (intervals @ [interval])
                  | None \<Rightarrow> coverage_map)
           in coverage_fill_loop interval (temp XOR lsb) coverage_map')"
  by pat_completeness auto
termination
  by (relation "measure (\<lambda>(interval, temp, cm). temp)") (auto simp: xor_lsb_less)

declare coverage_fill_loop.simps [simp del]

text \<open>
  Stage 1 (lines 376-385): the only interval of a point covered once is essential.
\<close>

definition essential_stage1 ::
  "nat \<Rightarrow> (nat \<times> BooleanInterval list) list \<Rightarrow> BooleanInterval list \<times> nat" where
  "essential_stage1 ones coverage_map =
     fold (\<lambda>(point, intervals) (essential, covered_mask).
             if length intervals = 1
             then let interval = intervals ! 0
                  in if interval \<notin> set essential
                     then (essential @ [interval], covered_mask OR covers_mask interval ones)
                     else (essential, covered_mask)
             else (essential, covered_mask))
          coverage_map ([], 0)"

text \<open>
  Stage 2 (lines 388-410). \<^verbatim>\<open>if best_interval:\<close> tests an object with neither
  \<^verbatim>\<open>__bool__\<close> nor \<^verbatim>\<open>__len__\<close>, so it is true exactly when an interval was found.
  A round adds an interval that was not selected before, which bounds the number of rounds.
\<close>

function essential_greedy_loop ::
  "nat \<Rightarrow> BooleanInterval list \<Rightarrow> BooleanInterval list \<Rightarrow> nat \<Rightarrow> nat \<Rightarrow> BooleanInterval list" where
  "essential_greedy_loop ones intervals essential covered_mask remaining_mask =
     (if remaining_mask = 0 then essential
      else case select_best intervals essential remaining_mask of
             (Some best_interval, best_coverage) \<Rightarrow>
               let essential' = essential @ [best_interval];
                   covered_mask' = covered_mask OR covers_mask best_interval ones;
                   remaining_mask' = and_not ones covered_mask'
               in essential_greedy_loop ones intervals essential' covered_mask' remaining_mask'
           | (None, best_coverage) \<Rightarrow> essential)"
  by pat_completeness auto
termination
  by (relation "measure (\<lambda>(ones, intervals, essential, c, r).
        length (filter (\<lambda>t. t \<notin> set essential) intervals))")
     (auto dest!: select_best_Some[OF sym] simp: filter_notin_less simp del: set_append)

declare essential_greedy_loop.simps [simp del]

text \<open>
  \<^verbatim>\<open>find_essential_intervals\<close> (lines 342-413).
\<close>

definition find_essential_intervals ::
  "MaximalIntervalsMinimizer \<Rightarrow> BooleanInterval list \<times> MaximalIntervalsMinimizer" where
  "find_essential_intervals st =
     (let st1 = (if all_intervals st = [] then snd (find_all_max_intervals st) else st);
          ones = ones_mask (func st1);
          (ones_points, coverage_map0) = ones_points_loop ones [] [];
          coverage_map =
            fold (\<lambda>interval cm. coverage_fill_loop interval (covers_mask interval ones) cm)
              (all_intervals st1) coverage_map0;
          (essential, covered_mask) = essential_stage1 ones coverage_map;
          remaining_mask = and_not ones covered_mask;
          essential' = essential_greedy_loop ones (all_intervals st1) essential
                          covered_mask remaining_mask
      in (essential', st1\<lparr>essential_intervals := essential'\<rparr>))"

text \<open>
  \<^verbatim>\<open>_greedy_cover\<close> (lines 447-475).
\<close>

function greedy_cover_loop ::
  "nat \<Rightarrow> BooleanInterval list \<Rightarrow> nat \<Rightarrow> BooleanInterval list \<Rightarrow> BooleanInterval list" where
  "greedy_cover_loop ones intervals uncovered result =
     (if uncovered = 0 then result
      else case select_best intervals result uncovered of
             (Some best_interval, best_coverage) \<Rightarrow>
               if best_coverage > 0
               then greedy_cover_loop ones intervals
                      (and_not uncovered (covers_mask best_interval ones))
                      (result @ [best_interval])
               else result
           | (None, best_coverage) \<Rightarrow> result)"
  by pat_completeness auto
termination
  by (relation "measure (\<lambda>(ones, intervals, uncovered, result).
        length (filter (\<lambda>t. t \<notin> set result) intervals))")
     (auto dest!: select_best_Some[OF sym] simp: filter_notin_less simp del: set_append)

declare greedy_cover_loop.simps [simp del]

definition greedy_cover :: "PartialBooleanFunction \<Rightarrow> BooleanInterval list \<Rightarrow> BooleanInterval list" where
  "greedy_cover f intervals = greedy_cover_loop (ones_mask f) intervals (ones_mask f) []"

text \<open>
  \<^verbatim>\<open>minimize\<close> (lines 415-445). The printing, and the values computed only to be
  printed, are left out.
\<close>

definition minimize ::
  "MaximalIntervalsMinimizer \<Rightarrow> BooleanInterval list \<times> MaximalIntervalsMinimizer" where
  "minimize st =
     (let (max_intervals, st1) = find_all_max_intervals st;
          (essential, st2) = find_essential_intervals st1;
          covered_mask =
            fold (\<lambda>interval cm. cm OR covers_mask interval (ones_mask (func st2))) essential 0
      in if covered_mask = ones_mask (func st2) then (essential, st2)
         else (greedy_cover (func st2) max_intervals, st2))"

text \<open>
  Strings are byte lists in UTF-8: the negation sign U+00AC is the bytes C2 AC and the
  disjunction sign U+2228 the bytes E2 88 A8. \<open>str_nat\<close> is the decimal rendering of
  \<^verbatim>\<open>f"x{self.n - i}"\<close> and \<open>join\<close> is \<^verbatim>\<open>str.join\<close>.
\<close>

function str_nat :: "nat \<Rightarrow> string" where
  "str_nat k = (if k < 10 then [char_of (48 + k)]
                else str_nat (k div 10) @ [char_of (48 + k mod 10)])"
  by pat_completeness auto
termination
  by (relation "measure id") auto

declare str_nat.simps [simp del]

fun join :: "string \<Rightarrow> string list \<Rightarrow> string" where
  "join sep [] = []"
| "join sep [x] = x"
| "join sep (x # y # ys) = x @ sep @ join sep (y # ys)"

definition neg_sign :: string where
  "neg_sign = [CHR 0xC2, CHR 0xAC]"

definition or_sep :: string where
  "or_sep = [CHR '' '', CHR 0xE2, CHR 0x88, CHR 0xA8, CHR '' '']"

text \<open>
  \<^verbatim>\<open>BooleanInterval.__str__\<close> (lines 105-121), variables from the most significant
  bit down.
\<close>

definition interval_str :: "BooleanInterval \<Rightarrow> string" where
  "interval_str t =
     (if bi_mask t = 0 then ''1''
      else join '' & ''
             (concat (map (\<lambda>i. if bi_mask t AND 2 ^ i \<noteq> 0
                               then let var_name = ''x'' @ str_nat (bi_n t - i)
                                    in if bi_value t AND 2 ^ i \<noteq> 0 then [var_name]
                                       else [neg_sign @ var_name]
                               else [])
                        (rev [0..<bi_n t]))))"

text \<open>
  \<^verbatim>\<open>get_minimal_dnf\<close> (lines 477-493).
\<close>

fun dnf_terms_loop :: "BooleanInterval list \<Rightarrow> string list \<Rightarrow> string" where
  "dnf_terms_loop [] terms = join or_sep terms"
| "dnf_terms_loop (interval # rest) terms =
     (let term_str = interval_str interval
      in if term_str = ''1'' then ''1''
         else dnf_terms_loop rest (terms @ [''('' @ term_str @ '')'']))"

definition get_minimal_dnf :: "MaximalIntervalsMinimizer \<Rightarrow> string \<times> MaximalIntervalsMinimizer" where
  "get_minimal_dnf st =
     (let (min_intervals, st') = minimize st
      in if min_intervals = [] then (''0'', st')
         else (dnf_terms_loop min_intervals [], st'))"

section \<open>The subset test\<close>

text \<open>
  Claim C9. Subset-antisymmetry: two intervals with the same \<open>n\<close>, each a subset of the
  other according to \<open>is_subset_of\<close>, are equal: same mask and same value.
\<close>

theorem is_subset_of_antisym:
  assumes "bi_n a = bi_n b" and "is_subset_of a b" and "is_subset_of b a"
  shows "a = b \<and> bi_mask a = bi_mask b \<and> bi_value a = bi_value b"
proof -
  from assms(2,3) have m: "bi_mask a AND bi_mask b = bi_mask b" "bi_mask b AND bi_mask a = bi_mask a"
    and v: "bi_value a AND bi_mask b = bi_value b" "bi_value b AND bi_mask a = bi_value a"
    by (simp_all add: is_subset_of_def)
  from m have meq: "bi_mask a = bi_mask b" by (simp add: and.commute)
  have "bi_value a = (bi_value a AND bi_mask b) AND bi_mask a" using v by simp
  also have "\<dots> = bi_value a AND bi_mask b" by (simp add: meq and.assoc)
  also have "\<dots> = bi_value b" by (rule v(1))
  finally have veq: "bi_value a = bi_value b" .
  from assms(1) meq veq have "a = b" by simp
  with meq veq show ?thesis by simp
qed

theorem is_subset_of_antisym_witness:
  "bi_n (BooleanInterval_init 3 5 4) = bi_n (BooleanInterval_init 3 13 12)
   \<and> is_subset_of (BooleanInterval_init 3 5 4) (BooleanInterval_init 3 13 12)
   \<and> is_subset_of (BooleanInterval_init 3 13 12) (BooleanInterval_init 3 5 4)
   \<and> BooleanInterval_init 3 5 4 = BooleanInterval_init 3 13 12
   \<and> bi_mask (BooleanInterval_init 3 5 4) = bi_mask (BooleanInterval_init 3 13 12)
   \<and> bi_value (BooleanInterval_init 3 5 4) = bi_value (BooleanInterval_init 3 13 12)"
proof -
  have h1: "bi_n (BooleanInterval_init 3 5 4) = bi_n (BooleanInterval_init 3 13 12)"
    by (simp add: init_n)
  have h2: "is_subset_of (BooleanInterval_init 3 5 4) (BooleanInterval_init 3 13 12)"
    by code_simp
  have h3: "is_subset_of (BooleanInterval_init 3 13 12) (BooleanInterval_init 3 5 4)"
    by code_simp
  show ?thesis using h1 h2 h3 is_subset_of_antisym[OF h1 h2 h3] by simp
qed

lemma is_subset_of_bits:
  "is_subset_of a b \<longleftrightarrow> (\<forall>j. bit (bi_mask b) j \<longrightarrow> bit (bi_mask a) j)
      \<and> (\<forall>j. bit (bi_value b) j \<longleftrightarrow> bit (bi_value a) j \<and> bit (bi_mask b) j)"
  by (simp add: is_subset_of_def bit_eq_iff bit_and_iff) blast

lemma is_subset_of_imp_covers:
  "is_subset_of a b \<Longrightarrow> valid_interval a \<Longrightarrow> covers_point a p \<Longrightarrow> covers_point b p"
proof -
  assume s: "is_subset_of a b" and va: "valid_interval a" and c: "covers_point a p"
  show ?thesis
    unfolding covers_point_bits
  proof
    fix j
    from s have "bit (bi_mask b) j \<longrightarrow> bit (bi_mask a) j"
      "bit (bi_value b) j \<longleftrightarrow> bit (bi_value a) j \<and> bit (bi_mask b) j"
      unfolding is_subset_of_bits by blast+
    moreover from c have "bit p j \<and> bit (bi_mask a) j \<longleftrightarrow> bit (bi_value a) j"
      unfolding covers_point_bits by blast
    ultimately show "bit p j \<and> bit (bi_mask b) j \<longleftrightarrow> bit (bi_value b) j" by blast
  qed
qed

lemma valid_covers_value: "valid_interval t \<Longrightarrow> covers_point t (bi_value t)"
  by (simp add: valid_interval_def covers_point_def)

lemma valid_value_less: "valid_interval t \<Longrightarrow> bi_value t < 2 ^ bi_n t"
  unfolding less_exp_bits using valid_value_bits valid_mask_bits by blast

lemma covers_imp_is_subset_of:
  assumes va: "valid_interval a" and vb: "valid_interval b" and n: "bi_n a = bi_n b"
    and c: "\<forall>p<2 ^ bi_n a. covers_point a p \<longrightarrow> covers_point b p"
  shows "is_subset_of a b"
proof -
  have cv: "covers_point b (bi_value a)"
    using c valid_covers_value[OF va] valid_value_less[OF va] by blast
  have sub: "bit (bi_mask a) i" if i: "bit (bi_mask b) i" for i
  proof (rule ccontr)
    assume ni: "\<not> bit (bi_mask a) i"
    have iltn: "i < bi_n a" using valid_mask_bits[OF vb i] n by simp
    have nvi: "\<not> bit (bi_value a) i" using ni valid_value_bits[OF va] by blast
    let ?p = "bi_value a OR 2 ^ i"
    have "?p < 2 ^ bi_n a"
      unfolding less_exp_bits
      using valid_value_less[OF va] iltn by (auto simp: bit_or_iff bit_exp_iff less_exp_bits)
    moreover have "covers_point a ?p"
      unfolding covers_point_bits
      using ni valid_value_bits[OF va] by (auto simp: bit_or_iff bit_exp_iff)
    ultimately have "covers_point b ?p" using c by blast
    then have "bit ?p i \<and> bit (bi_mask b) i \<longleftrightarrow> bit (bi_value b) i"
      unfolding covers_point_bits by blast
    then have "bit (bi_value b) i" using i by (simp add: bit_or_iff bit_exp_iff)
    moreover from cv have "bit (bi_value a) i \<and> bit (bi_mask b) i \<longleftrightarrow> bit (bi_value b) i"
      unfolding covers_point_bits by blast
    ultimately show False using nvi by blast
  qed
  show ?thesis
    unfolding is_subset_of_bits
  proof (intro conjI allI impI)
    fix j assume "bit (bi_mask b) j" then show "bit (bi_mask a) j" by (rule sub)
  next
    fix j
    from cv show "bit (bi_value b) j \<longleftrightarrow> bit (bi_value a) j \<and> bit (bi_mask b) j"
      unfolding covers_point_bits by blast
  qed
qed

text \<open>
  Claim C6. For two intervals built by the constructor with the same \<open>n\<close>,
  \<open>is_subset_of a b\<close> holds exactly when every evaluation point below \<open>2 ^ n\<close> covered
  by \<open>a\<close> is covered by \<open>b\<close>, both per \<open>covers_point\<close> and per the point masks that
  \<open>get_all_points_mask\<close> computes.
\<close>

theorem is_subset_of_iff_containment:
  "(is_subset_of (BooleanInterval_init n ma va) (BooleanInterval_init n mb vb)
      \<longleftrightarrow> (\<forall>p<2 ^ n. covers_point (BooleanInterval_init n ma va) p
                       \<longrightarrow> covers_point (BooleanInterval_init n mb vb) p))
   \<and> (is_subset_of (BooleanInterval_init n ma va) (BooleanInterval_init n mb vb)
      \<longleftrightarrow> and_not (get_all_points_mask (BooleanInterval_init n ma va))
                   (get_all_points_mask (BooleanInterval_init n mb vb)) = 0)"
proof -
  let ?a = "BooleanInterval_init n ma va" and ?b = "BooleanInterval_init n mb vb"
  have va: "valid_interval ?a" and vb: "valid_interval ?b" by (rule valid_init)+
  have na: "bi_n ?a = n" and nb: "bi_n ?b = n" by (rule init_n)+
  have 1: "is_subset_of ?a ?b \<longleftrightarrow> (\<forall>p<2 ^ n. covers_point ?a p \<longrightarrow> covers_point ?b p)"
    using is_subset_of_imp_covers[OF _ va] covers_imp_is_subset_of[OF va vb] na nb by auto
  have "and_not (get_all_points_mask ?a) (get_all_points_mask ?b) = 0
      \<longleftrightarrow> (\<forall>p. \<not> (bit (get_all_points_mask ?a) p \<and> \<not> bit (get_all_points_mask ?b) p))"
    by (simp add: bit_eq_iff bit_and_not)
  also have "\<dots> \<longleftrightarrow> (\<forall>p<2 ^ n. covers_point ?a p \<longrightarrow> covers_point ?b p)"
    unfolding get_all_points_mask_bits[OF va] get_all_points_mask_bits[OF vb] na nb by blast
  finally show ?thesis using 1 by simp
qed

theorem is_subset_of_iff_containment_witness:
  "is_subset_of (BooleanInterval_init 3 7 5) (BooleanInterval_init 3 5 5)
   \<and> covers_point (BooleanInterval_init 3 7 5) 5
   \<and> covers_point (BooleanInterval_init 3 5 5) 5
   \<and> \<not> is_subset_of (BooleanInterval_init 3 5 5) (BooleanInterval_init 3 7 5)
   \<and> \<not> (\<forall>p<2 ^ 3. covers_point (BooleanInterval_init 3 5 5) p
                       \<longrightarrow> covers_point (BooleanInterval_init 3 7 5) p)"
proof -
  have h1: "is_subset_of (BooleanInterval_init 3 7 5) (BooleanInterval_init 3 5 5)"
    by code_simp
  have h2: "\<not> is_subset_of (BooleanInterval_init 3 5 5) (BooleanInterval_init 3 7 5)"
    by code_simp
  have h3: "covers_point (BooleanInterval_init 3 7 5) 5" by code_simp
  have h4: "(5::nat) < 2 ^ 3" by simp
  show ?thesis
    using h1 h2 h3 h4 is_subset_of_iff_containment[of 3 7 5 5 5]
      is_subset_of_iff_containment[of 3 5 5 7 5]
    by blast
qed

section \<open>Construction of the function\<close>

lemma set_points_bits:
  "bit (set_points tp vals acc) p \<longleftrightarrow> bit acc p \<or> (int p \<in> set vals \<and> p < tp)"
proof (induction vals arbitrary: acc)
  case Nil
  then show ?case by simp
next
  case (Cons val vals)
  have "0 \<le> val \<Longrightarrow> p = nat val \<longleftrightarrow> int p = val" by auto
  then show ?case
    by (auto simp: Cons.IH bit_or_iff bit_exp_iff)
qed

lemma and_eq_0_bits: "(a::nat) AND b = 0 \<longleftrightarrow> (\<forall>p. \<not> (bit a p \<and> bit b p))"
  by (simp add: bit_eq_iff bit_and_iff)

lemma masks_intersect_iff:
  "set_points tp ones 0 AND set_points tp dcares 0 \<noteq> 0
     \<longleftrightarrow> (\<exists>v\<in>set ones \<inter> set dcares. 0 \<le> v \<and> v < int tp)"
proof -
  have "set_points tp ones 0 AND set_points tp dcares 0 \<noteq> 0
     \<longleftrightarrow> (\<exists>p<tp. int p \<in> set ones \<and> int p \<in> set dcares)"
    unfolding and_eq_0_bits set_points_bits by auto
  also have "\<dots> \<longleftrightarrow> (\<exists>v\<in>set ones \<inter> set dcares. 0 \<le> v \<and> v < int tp)"
  proof
    assume "\<exists>p<tp. int p \<in> set ones \<and> int p \<in> set dcares"
    then obtain p where "p < tp" "int p \<in> set ones" "int p \<in> set dcares" by blast
    then show "\<exists>v\<in>set ones \<inter> set dcares. 0 \<le> v \<and> v < int tp"
      by (intro bexI[of _ "int p"]) auto
  next
    assume "\<exists>v\<in>set ones \<inter> set dcares. 0 \<le> v \<and> v < int tp"
    then obtain v where v: "v \<in> set ones" "v \<in> set dcares" "0 \<le> v" "v < int tp" by blast
    then have "nat v < tp" "int (nat v) \<in> set ones" "int (nat v) \<in> set dcares" by auto
    then show "\<exists>p<tp. int p \<in> set ones \<and> int p \<in> set dcares" by blast
  qed
  finally show ?thesis .
qed

text \<open>
  Claim C7 as stated fails: with \<open>n = 1\<close> the lists \<open>[5]\<close> and \<open>[5]\<close> intersect, yet
  the common index is out of range, is dropped from both masks, and construction succeeds.
\<close>

theorem construction_conflict_counterexample:
  "(5::int) \<in> set [5] \<inter> set [5]
   \<and> PartialBooleanFunction_init 1 [5] [5] =
       Inr \<lparr>pf_n = 1, total_points = 2, ones_mask = 0, dcares_mask = 0,
            significant_mask = 0, zeros_mask = 3\<rparr>"
  by code_simp

text \<open>
  Claim C7, amended. For \<open>n \<ge> 0\<close> construction fails with the validation error exactly
  when the two lists share an index inside \<open>[0, 2 ^ n)\<close>; otherwise it succeeds, and the
  bits of \<open>ones_mask\<close> and \<open>dcares_mask\<close> are exactly the in-range indices of the
  respective list, so out-of-range indices contribute nothing and raise nothing.
\<close>

theorem construction_contract:
  assumes "0 \<le> n"
  shows "((\<exists>v\<in>set ones \<inter> set dcares. 0 \<le> v \<and> v < 2 ^ nat n)
            \<longrightarrow> PartialBooleanFunction_init n ones dcares = Inl OnesDcaresIntersect)
       \<and> (\<not> (\<exists>v\<in>set ones \<inter> set dcares. 0 \<le> v \<and> v < 2 ^ nat n)
            \<longrightarrow> (\<exists>f. PartialBooleanFunction_init n ones dcares = Inr f
                  \<and> (\<forall>p. bit (ones_mask f) p \<longleftrightarrow> int p \<in> set ones \<and> p < 2 ^ nat n)
                  \<and> (\<forall>p. bit (dcares_mask f) p \<longleftrightarrow> int p \<in> set dcares \<and> p < 2 ^ nat n)))"
proof -
  let ?tp = "(2::nat) ^ nat n"
  have i: "set_points ?tp ones 0 AND set_points ?tp dcares 0 \<noteq> 0
     \<longleftrightarrow> (\<exists>v\<in>set ones \<inter> set dcares. 0 \<le> v \<and> v < 2 ^ nat n)"
    unfolding masks_intersect_iff by simp
  show ?thesis
  proof (cases "\<exists>v\<in>set ones \<inter> set dcares. 0 \<le> v \<and> v < 2 ^ nat n")
    case True
    with i have "set_points ?tp ones 0 AND set_points ?tp dcares 0 \<noteq> 0" by blast
    with assms True show ?thesis
      by (simp add: PartialBooleanFunction_init_def Let_def)
  next
    case False
    with i have "set_points ?tp ones 0 AND set_points ?tp dcares 0 = 0" by blast
    with assms False show ?thesis
      by (simp add: PartialBooleanFunction_init_def Let_def set_points_bits)
  qed
qed

theorem construction_contract_witness:
  "(0::int) \<le> 1
   \<and> (\<exists>v\<in>set [0::int] \<inter> set [0]. 0 \<le> v \<and> v < 2 ^ nat 1)
   \<and> PartialBooleanFunction_init 1 [0] [0] = Inl OnesDcaresIntersect
   \<and> \<not> (\<exists>v\<in>set [0::int, 7] \<inter> set [1, 7]. 0 \<le> v \<and> v < 2 ^ nat 1)
   \<and> (\<exists>f. PartialBooleanFunction_init 1 [0, 7] [1, 7] = Inr f
          \<and> (\<forall>p. bit (ones_mask f) p \<longleftrightarrow> int p \<in> set [0, 7] \<and> p < 2 ^ nat 1)
          \<and> (\<forall>p. bit (dcares_mask f) p \<longleftrightarrow> int p \<in> set [1, 7] \<and> p < 2 ^ nat 1))"
proof -
  have h: "(0::int) \<le> 1" by simp
  have a: "\<exists>v\<in>set [0::int] \<inter> set [0]. 0 \<le> v \<and> v < 2 ^ nat 1" by simp
  have b: "\<not> (\<exists>v\<in>set [0::int, 7] \<inter> set [1, 7]. 0 \<le> v \<and> v < 2 ^ nat 1)" by simp
  show ?thesis
    using h a b construction_contract[OF h, of "[0]" "[0]"]
      construction_contract[OF h, of "[0, 7]" "[1, 7]"]
    by blast
qed

section \<open>Expansion\<close>

text \<open>
  The specification of \<open>expand\<close>, following the words of the design document rather
  than the code: dropping the literal of variable \<open>i\<close> clears bit \<open>i\<close> of mask and
  value; the generalization is admissible when every evaluation point it covers and the
  original does not lies in the allowed mask; the result lists the admissible
  generalizations of the literals present.
\<close>

definition spec_drop_literal :: "BooleanInterval \<Rightarrow> nat \<Rightarrow> BooleanInterval" where
  "spec_drop_literal t i =
     \<lparr>bi_n = bi_n t, bi_mask = unset_bit i (bi_mask t), bi_value = unset_bit i (bi_value t)\<rparr>"

definition spec_admissible :: "BooleanInterval \<Rightarrow> nat \<Rightarrow> nat \<Rightarrow> bool" where
  "spec_admissible t allowed_mask i \<longleftrightarrow>
     list_all (\<lambda>p. covers_point (spec_drop_literal t i) p \<and> \<not> covers_point t p
                    \<longrightarrow> bit allowed_mask p)
              [0..<2 ^ bi_n t]"

definition spec_expand :: "BooleanInterval \<Rightarrow> nat \<Rightarrow> BooleanInterval list" where
  "spec_expand t allowed_mask =
     map (spec_drop_literal t)
       (filter (\<lambda>i. bit (bi_mask t) i \<and> spec_admissible t allowed_mask i) [0..<bi_n t])"

lemma eq_0_bits: "(a::nat) = 0 \<longleftrightarrow> (\<forall>p. \<not> bit a p)"
  by (simp add: bit_eq_iff)

lemma drop_literal_valid:
  "valid_interval t \<Longrightarrow> valid_interval (spec_drop_literal t i)"
proof -
  assume v: "valid_interval t"
  have "unset_bit i (bi_mask t) < 2 ^ bi_n t"
    unfolding less_exp_bits using valid_mask_bits[OF v] by (auto simp: bit_unset_bit_iff)
  moreover have "unset_bit i (bi_value t) AND unset_bit i (bi_mask t) = unset_bit i (bi_value t)"
    by (rule bit_eqI) (use valid_value_bits[OF v] in \<open>auto simp: bit_and_iff bit_unset_bit_iff\<close>)
  ultimately show ?thesis by (simp add: valid_interval_def spec_drop_literal_def)
qed

lemma new_interval_eq:
  assumes v: "valid_interval t" and i: "bit (bi_mask t) i"
  shows "BooleanInterval_init (bi_n t) (int (bi_mask t XOR 2 ^ i))
           (int (bi_value t AND (bi_mask t XOR 2 ^ i))) = spec_drop_literal t i"
proof -
  let ?new = "BooleanInterval_init (bi_n t) (int (bi_mask t XOR 2 ^ i))
           (int (bi_value t AND (bi_mask t XOR 2 ^ i)))"
  have "bi_mask ?new = unset_bit i (bi_mask t)"
    by (rule bit_eqI)
       (use valid_mask_bits[OF v] i in \<open>auto simp: init_mask_bits bit_xor_iff bit_exp_iff bit_unset_bit_iff\<close>)
  moreover have "bi_value ?new = unset_bit i (bi_value t)"
    by (rule bit_eqI)
       (use valid_mask_bits[OF v] valid_value_bits[OF v] i in
         \<open>auto simp: init_value_bits bit_and_iff bit_xor_iff bit_exp_iff bit_unset_bit_iff\<close>)
  moreover have "bi_n ?new = bi_n t" by (rule init_n)
  ultimately show ?thesis by (simp add: spec_drop_literal_def)
qed

lemma admissible_check:
  assumes v: "valid_interval t"
  shows "and_not (and_not (get_all_points_mask (spec_drop_literal t i)) (get_all_points_mask t))
            allowed_mask = 0 \<longleftrightarrow> spec_admissible t allowed_mask i"
proof -
  have n: "bi_n (spec_drop_literal t i) = bi_n t" by (simp add: spec_drop_literal_def)
  show ?thesis
    unfolding eq_0_bits bit_and_not get_all_points_mask_bits[OF v]
      get_all_points_mask_bits[OF drop_literal_valid[OF v]] n spec_admissible_def list_all_iff
    by auto
qed

lemma filter_upt_least:
  assumes "i < n" and "P i" and "\<forall>j<i. \<not> P j"
  shows "filter P [0..<n] = i # filter (\<lambda>j. P j \<and> j \<noteq> i) [0..<n]"
proof -
  have split: "[0..<n] = [0..<i] @ i # [Suc i..<n]"
    using assms(1) by (metis le_add1 less_imp_add_positive upt_add_eq_append upt_conv_Cons plus_nat.add_0)
  have a: "filter P [0..<i] = []" using assms(3) by (auto simp: filter_empty_conv)
  have b: "filter (\<lambda>j. P j \<and> j \<noteq> i) [0..<i] = []" using assms(3) by (auto simp: filter_empty_conv)
  have c: "filter (\<lambda>j. P j \<and> j \<noteq> i) [Suc i..<n] = filter P [Suc i..<n]"
    by (rule filter_cong) auto
  show ?thesis unfolding split using assms(2) a b c by simp
qed

lemma expand_loop_spec:
  assumes v: "valid_interval t"
  shows "\<forall>j. bit vars j \<longrightarrow> bit (bi_mask t) j \<Longrightarrow>
     expand_loop t allowed_mask (get_all_points_mask t) vars acc =
       acc @ map (spec_drop_literal t)
               (filter (\<lambda>i. bit vars i \<and> spec_admissible t allowed_mask i) [0..<bi_n t])"
proof (induction vars arbitrary: acc rule: less_induct)
  case (less vars)
  let ?adm = "spec_admissible t allowed_mask"
  show ?case
  proof (cases "vars = 0")
    case True
    then show ?thesis by (simp add: expand_loop.simps)
  next
    case False
    from lsb_xor_bits[OF this] obtain i where i: "lsb_of vars = 2 ^ i" "bit vars i"
      "\<forall>j<i. \<not> bit vars j"
      "\<forall>j. bit (vars XOR lsb_of vars) j \<longleftrightarrow> bit vars j \<and> j \<noteq> i" by blast
    have Mi: "bit (bi_mask t) i" using i(2) less.prems by blast
    have iltn: "i < bi_n t" using valid_mask_bits[OF v Mi] .
    define acc' where "acc' = (if ?adm i then acc @ [spec_drop_literal t i] else acc)"
    have step: "expand_loop t allowed_mask (get_all_points_mask t) vars acc
          = expand_loop t allowed_mask (get_all_points_mask t) (vars XOR lsb_of vars) acc'"
      using False
      by (subst expand_loop.simps)
         (simp add: Let_def i(1) new_interval_eq[OF v Mi] admissible_check[OF v] acc'_def)
    have sub: "\<forall>j. bit (vars XOR lsb_of vars) j \<longrightarrow> bit (bi_mask t) j"
      using i(4) less.prems by blast
    have IH: "expand_loop t allowed_mask (get_all_points_mask t) (vars XOR lsb_of vars) acc'
          = acc' @ map (spec_drop_literal t)
               (filter (\<lambda>j. bit (vars XOR lsb_of vars) j \<and> ?adm j) [0..<bi_n t])"
      by (rule less.IH[OF xor_lsb_less[OF False] sub])
    have f1: "filter (bit vars) [0..<bi_n t] = i # filter (\<lambda>j. bit vars j \<and> j \<noteq> i) [0..<bi_n t]"
      by (rule filter_upt_least[OF iltn i(2) i(3)])
    have "filter (\<lambda>j. bit vars j \<and> ?adm j) [0..<bi_n t]
            = filter ?adm (filter (bit vars) [0..<bi_n t])"
      by (simp add: conj_commute)
    also have "\<dots> = (if ?adm i then [i] else [])
                       @ filter ?adm (filter (\<lambda>j. bit vars j \<and> j \<noteq> i) [0..<bi_n t])"
      by (subst f1) simp
    also have "filter ?adm (filter (\<lambda>j. bit vars j \<and> j \<noteq> i) [0..<bi_n t])
            = filter (\<lambda>j. bit (vars XOR lsb_of vars) j \<and> ?adm j) [0..<bi_n t]"
      by (simp add: i(4) conj_commute)
    finally have F: "filter (\<lambda>j. bit vars j \<and> ?adm j) [0..<bi_n t]
            = (if ?adm i then [i] else [])
                @ filter (\<lambda>j. bit (vars XOR lsb_of vars) j \<and> ?adm j) [0..<bi_n t]" .
    have "expand_loop t allowed_mask (get_all_points_mask t) vars acc
          = acc' @ map (spec_drop_literal t)
               (filter (\<lambda>j. bit (vars XOR lsb_of vars) j \<and> ?adm j) [0..<bi_n t])"
      using step IH by (rule trans)
    then show ?thesis by (simp add: F acc'_def)
  qed
qed

lemma expand_eq_spec:
  "valid_interval t \<Longrightarrow> expand t allowed_mask = spec_expand t allowed_mask"
  by (simp add: expand_def spec_expand_def expand_loop_spec)

text \<open>
  Claim C5. \<open>expand\<close> returns exactly the admissible single-literal-dropped
  generalizations: one candidate per set bit of the mask, in ascending bit order, each
  obtained by clearing that bit in mask and value, kept exactly when every point below
  \<open>2 ^ n\<close> that the candidate covers and the original does not lies in \<open>allowed_mask\<close>.
\<close>

theorem expand_exact:
  "expand (BooleanInterval_init n mk v) allowed_mask
     = spec_expand (BooleanInterval_init n mk v) allowed_mask"
proof -
  have valid: "valid_interval (BooleanInterval_init n mk v)" by (rule valid_init)
  have "\<forall>j. bit (bi_mask (BooleanInterval_init n mk v)) j
          \<longrightarrow> bit (bi_mask (BooleanInterval_init n mk v)) j" by simp
  from expand_loop_spec[OF valid this, of allowed_mask "[]"]
  show ?thesis by (simp add: expand_def spec_expand_def)
qed

theorem expand_exact_witness:
  "expand (BooleanInterval_init 3 7 6) 127
     = [\<lparr>bi_n = 3, bi_mask = 5, bi_value = 4\<rparr>, \<lparr>bi_n = 3, bi_mask = 3, bi_value = 2\<rparr>]
   \<and> spec_expand (BooleanInterval_init 3 7 6) 127
     = [\<lparr>bi_n = 3, bi_mask = 5, bi_value = 4\<rparr>, \<lparr>bi_n = 3, bi_mask = 3, bi_value = 2\<rparr>]
   \<and> \<not> spec_admissible (BooleanInterval_init 3 7 6) 127 0
   \<and> spec_admissible (BooleanInterval_init 3 7 6) 127 1"
proof -
  have e: "expand (BooleanInterval_init 3 7 6) 127
     = [\<lparr>bi_n = 3, bi_mask = 5, bi_value = 4\<rparr>, \<lparr>bi_n = 3, bi_mask = 3, bi_value = 2\<rparr>]"
    by code_simp
  have a0: "\<not> spec_admissible (BooleanInterval_init 3 7 6) 127 0" by code_simp
  have a1: "spec_admissible (BooleanInterval_init 3 7 6) 127 1" by code_simp
  show ?thesis using e a0 a1 expand_exact[of 3 7 6 127] by simp
qed

section \<open>The search for maximal intervals\<close>

subsection \<open>Facts about a constructed function\<close>

lemma init_Inr_fields:
  assumes "PartialBooleanFunction_init n ones dcares = Inr f"
  shows "0 \<le> n" and "pf_n f = nat n" and "total_points f = 2 ^ nat n"
    and "ones_mask f = set_points (2 ^ nat n) ones 0"
    and "dcares_mask f = set_points (2 ^ nat n) dcares 0"
    and "significant_mask f = ones_mask f OR dcares_mask f"
    and "zeros_mask f = and_not (2 ^ (2 ^ nat n) - 1) (significant_mask f)"
    and "ones_mask f AND dcares_mask f = 0"
  using assms
  by (auto simp: PartialBooleanFunction_init_def Let_def split: if_splits)

lemma init_Inr_bits:
  assumes "PartialBooleanFunction_init n ones dcares = Inr f"
  shows "bit (ones_mask f) p \<Longrightarrow> bit (significant_mask f) p"
    and "bit (significant_mask f) p \<Longrightarrow> p < 2 ^ pf_n f"
    and "bit (zeros_mask f) p \<longleftrightarrow> p < 2 ^ pf_n f \<and> \<not> bit (significant_mask f) p"
proof -
  note F = init_Inr_fields[OF assms]
  show "bit (ones_mask f) p \<Longrightarrow> bit (significant_mask f) p"
    by (simp add: F(6) bit_or_iff)
  show "bit (significant_mask f) p \<Longrightarrow> p < 2 ^ pf_n f"
    by (auto simp: F(2,4,5,6) bit_or_iff set_points_bits)
  show "bit (zeros_mask f) p \<longleftrightarrow> p < 2 ^ pf_n f \<and> \<not> bit (significant_mask f) p"
    unfolding F(7) bit_and_not bit_exp_minus_1 F(2) by simp
qed

subsection \<open>Legal intervals\<close>

text \<open>
  An interval is legal for a function when it is valid, has the function's \<open>n\<close> and
  covers only points of \<open>significant_mask\<close>.
\<close>

definition legal :: "nat \<Rightarrow> nat \<Rightarrow> BooleanInterval \<Rightarrow> bool" where
  "legal n significant t \<longleftrightarrow>
     valid_interval t \<and> bi_n t = n \<and> (\<forall>p<2 ^ n. covers_point t p \<longrightarrow> bit significant p)"

lemma covers_mask_0: "covers_mask t 0 = 0"
proof -
  have "fold (\<lambda>x r. if P x then r else r) xs (0::nat) = 0" for P :: "nat \<Rightarrow> bool" and xs
    by (induction xs) simp_all
  then show ?thesis by (simp add: covers_mask_def Let_def)
qed

lemma legal_covers_zeros:
  assumes f: "PartialBooleanFunction_init n ones dcares = Inr f"
    and l: "legal (pf_n f) (significant_mask f) t"
  shows "covers_mask t (zeros_mask f) = 0"
proof -
  from l have v: "valid_interval t" and n: "bi_n t = pf_n f"
    and c: "\<And>p. p < 2 ^ pf_n f \<Longrightarrow> covers_point t p \<Longrightarrow> bit (significant_mask f) p"
    by (auto simp: legal_def)
  show ?thesis
    unfolding eq_0_bits covers_mask_bits_gen[OF v] init_Inr_bits(3)[OF f]
    using c by blast
qed

lemma drop_literal_covers:
  "covers_point t p \<Longrightarrow> covers_point (spec_drop_literal t i) p"
  unfolding covers_point_bits
  by (auto simp: spec_drop_literal_def bit_unset_bit_iff)

lemma expand_member:
  assumes v: "valid_interval t" and e: "e \<in> set (expand t a)"
  obtains i where "bit (bi_mask t) i" "e = spec_drop_literal t i" "spec_admissible t a i"
  using e unfolding expand_eq_spec[OF v] spec_expand_def by auto

lemma expand_covers:
  "valid_interval t \<Longrightarrow> e \<in> set (expand t a) \<Longrightarrow> covers_point t p \<Longrightarrow> covers_point e p"
  by (erule (1) expand_member) (simp add: drop_literal_covers)

lemma expand_legal:
  assumes l: "legal n s t" and e: "e \<in> set (expand t s)"
  shows "legal n s e"
proof -
  from l have v: "valid_interval t" and n: "bi_n t = n"
    and c: "\<And>p. p < 2 ^ n \<Longrightarrow> covers_point t p \<Longrightarrow> bit s p"
    by (auto simp: legal_def)
  from expand_member[OF v e] obtain i where i: "bit (bi_mask t) i" "e = spec_drop_literal t i"
    "spec_admissible t s i" by blast
  have "valid_interval e" unfolding i(2) by (rule drop_literal_valid[OF v])
  moreover have "bi_n e = n" using n by (simp add: i(2) spec_drop_literal_def)
  moreover have "bit s p" if "p < 2 ^ n" "covers_point e p" for p
  proof (cases "covers_point t p")
    case True then show ?thesis using c that by blast
  next
    case False
    then show ?thesis using i(3) that n unfolding spec_admissible_def list_all_iff i(2) by auto
  qed
  ultimately show ?thesis by (simp add: legal_def)
qed

subsection \<open>The seed loop\<close>

lemma start_intervals_loop_set:
  "set (start_intervals_loop n temp acc) =
     set acc \<union> (\<lambda>p. BooleanInterval_init n (int (2 ^ n - 1)) (int p)) ` {p. bit temp p}"
proof (induction temp arbitrary: acc rule: less_induct)
  case (less temp)
  show ?case
  proof (cases "temp = 0")
    case True
    then show ?thesis by (simp add: start_intervals_loop.simps)
  next
    case False
    from lsb_xor_bits[OF this] obtain i where i: "lsb_of temp = 2 ^ i" "bit temp i"
      "\<forall>j. bit (temp XOR lsb_of temp) j \<longleftrightarrow> bit temp j \<and> j \<noteq> i" by blast
    have s: "{p. bit temp p} = insert i {p. bit (temp XOR lsb_of temp) p}"
      using i(2,3) by auto
    have "start_intervals_loop n temp acc = start_intervals_loop n (temp XOR lsb_of temp)
             (acc @ [BooleanInterval_init n (int (2 ^ n - 1)) (int i)])"
      using False by (subst start_intervals_loop.simps) (simp add: Let_def i(1) bit_length_exp)
    then show ?thesis
      unfolding s by (simp add: less.IH[OF xor_lsb_less[OF False]])
  qed
qed

lemma seed_legal:
  assumes p: "p < 2 ^ n" and b: "bit s p"
  shows "legal n s (BooleanInterval_init n (int (2 ^ n - 1)) (int p))"
proof -
  let ?t = "BooleanInterval_init n (int (2 ^ n - 1)) (int p)"
  have m: "bi_mask ?t = 2 ^ n - 1"
  proof (rule bit_eqI)
    fix j show "bit (bi_mask ?t) j = bit ((2::nat) ^ n - 1) j"
      unfolding init_mask_bits bit_exp_minus_1 by blast
  qed
  have pb: "\<And>j. bit p j \<Longrightarrow> j < n" using p by (simp add: less_exp_bits)
  have v: "bi_value ?t = p"
  proof (rule bit_eqI)
    fix j show "bit (bi_value ?t) j = bit p j"
      unfolding init_value_bits bit_exp_minus_1 using pb by blast
  qed
  have "q = p" if "q < 2 ^ n" "covers_point ?t q" for q
  proof -
    have qb: "\<And>j. bit q j \<Longrightarrow> j < n" using that(1) by (simp add: less_exp_bits)
    from that(2) have "q AND (2 ^ n - 1) = p" unfolding covers_point_def m v .
    moreover have "q AND (2 ^ n - 1) = q"
    proof (rule bit_eqI)
      fix j show "bit (q AND (2 ^ n - 1)) j = bit q j"
        unfolding bit_and_iff bit_exp_minus_1 using qb by blast
    qed
    ultimately show ?thesis by simp
  qed
  then have "\<forall>q<2 ^ n. covers_point ?t q \<longrightarrow> bit s q" using b by blast
  moreover have "valid_interval ?t" by (rule valid_init)
  moreover have "bi_n ?t = n" by (rule init_n)
  ultimately show ?thesis unfolding legal_def by blast
qed

subsection \<open>Invariants of the breadth-first search\<close>

lemma bfs_loop_induct [consumes 0, case_names Nil Visited Expand Max Skip]:
  assumes "\<And>vis acc. P [] vis acc"
    and "\<And>c q vis acc. c \<in> vis \<Longrightarrow> P q vis acc \<Longrightarrow> P (c # q) vis acc"
    and "\<And>c q vis acc. c \<notin> vis \<Longrightarrow> expand c s \<noteq> [] \<Longrightarrow>
           P (q @ filter (\<lambda>e. e \<notin> insert c vis) (expand c s)) (insert c vis) acc
           \<Longrightarrow> P (c # q) vis acc"
    and "\<And>c q vis acc. c \<notin> vis \<Longrightarrow> expand c s = [] \<Longrightarrow> covers_mask c ones \<noteq> 0 \<Longrightarrow>
           P q (insert c vis) (acc @ [c]) \<Longrightarrow> P (c # q) vis acc"
    and "\<And>c q vis acc. c \<notin> vis \<Longrightarrow> expand c s = [] \<Longrightarrow> covers_mask c ones = 0 \<Longrightarrow>
           P q (insert c vis) acc \<Longrightarrow> P (c # q) vis acc"
  shows "P q vis acc"
proof -
  have "s' = s \<Longrightarrow> ones' = ones \<Longrightarrow> P q vis acc" for s' ones'
  proof (induction s' ones' q vis acc rule: bfs_loop.induct)
    case (1 s' ones' vis acc)
    show ?case by (rule assms(1))
  next
    case (2 s' ones' c q vis acc)
    note eqs = \<open>s' = s\<close> \<open>ones' = ones\<close>
    show ?case
    proof (cases "c \<in> vis")
      case True
      show ?thesis by (rule assms(2)[OF True 2(1)[OF True eqs]])
    next
      case nv: False
      show ?thesis
      proof (cases "expand c s = []")
        case False
        then have ne: "expand c s' \<noteq> []" by (simp add: eqs)
        have "P (q @ filter (\<lambda>e. e \<notin> insert c vis) (expand c s')) (insert c vis) acc"
          by (rule 2(2)[OF nv refl refl ne eqs])
        then show ?thesis using assms(3)[OF nv False] by (simp add: eqs)
      next
        case e: True
        then have ne: "\<not> expand c s' \<noteq> []" by (simp add: eqs)
        show ?thesis
        proof (cases "covers_mask c ones = 0")
          case True
          then have nc: "\<not> covers_mask c ones' \<noteq> 0" by (simp add: eqs)
          have "P q (insert c vis) acc" by (rule 2(4)[OF nv refl refl ne nc eqs])
          then show ?thesis by (rule assms(5)[OF nv e True])
        next
          case False
          then have nc: "covers_mask c ones' \<noteq> 0" by (simp add: eqs)
          have "P q (insert c vis) (acc @ [c])" by (rule 2(3)[OF nv refl refl ne nc eqs])
          then show ?thesis by (rule assms(4)[OF nv e False])
        qed
      qed
    qed
  qed
  then show ?thesis by simp
qed

lemma bfs_loop_Nil: "bfs_loop s ones [] vis acc = (vis, acc)"
  by (simp add: bfs_loop.simps)

lemma bfs_loop_Visited:
  "c \<in> vis \<Longrightarrow> bfs_loop s ones (c # q) vis acc = bfs_loop s ones q vis acc"
  by (simp add: bfs_loop.simps)

lemma bfs_loop_Expand:
  "c \<notin> vis \<Longrightarrow> expand c s \<noteq> [] \<Longrightarrow>
     bfs_loop s ones (c # q) vis acc =
       bfs_loop s ones (q @ filter (\<lambda>e. e \<notin> insert c vis) (expand c s)) (insert c vis) acc"
  by (simp add: bfs_loop.simps Let_def)

lemma bfs_loop_Max:
  "c \<notin> vis \<Longrightarrow> expand c s = [] \<Longrightarrow> covers_mask c ones \<noteq> 0 \<Longrightarrow>
     bfs_loop s ones (c # q) vis acc = bfs_loop s ones q (insert c vis) (acc @ [c])"
  by (simp add: bfs_loop.simps Let_def)

lemma bfs_loop_Skip:
  "c \<notin> vis \<Longrightarrow> expand c s = [] \<Longrightarrow> covers_mask c ones = 0 \<Longrightarrow>
     bfs_loop s ones (c # q) vis acc = bfs_loop s ones q (insert c vis) acc"
  by (simp add: bfs_loop.simps Let_def)

lemma bfs_loop_closed:
  assumes R: "\<And>t e. R t \<Longrightarrow> e \<in> set (expand t s) \<Longrightarrow> R e"
  shows "(\<forall>t\<in>set q \<union> vis \<union> set acc. R t) \<longrightarrow>
     (\<forall>t\<in>fst (bfs_loop s ones q vis acc) \<union> set (snd (bfs_loop s ones q vis acc)). R t)"
proof (induction q vis acc rule: bfs_loop_induct[where s = s and ones = ones])
  case (Nil vis acc)
  show ?case by (simp add: bfs_loop_Nil)
next
  case (Visited c q vis acc)
  show ?case
  proof (intro impI)
    assume a: "\<forall>t\<in>set (c # q) \<union> vis \<union> set acc. R t"
    then have "\<forall>t\<in>set q \<union> vis \<union> set acc. R t" by auto
    with Visited(2) show "\<forall>t\<in>fst (bfs_loop s ones (c # q) vis acc)
                      \<union> set (snd (bfs_loop s ones (c # q) vis acc)). R t"
      unfolding bfs_loop_Visited[OF Visited(1)] by blast
  qed
next
  case (Expand c q vis acc)
  show ?case
  proof (intro impI)
    assume a: "\<forall>t\<in>set (c # q) \<union> vis \<union> set acc. R t"
    then have "R c" by simp
    then have "\<forall>e\<in>set (expand c s). R e" using R by blast
    with a have "\<forall>t\<in>set (q @ filter (\<lambda>e. e \<notin> insert c vis) (expand c s))
                      \<union> insert c vis \<union> set acc. R t" by auto
    with Expand(3) show "\<forall>t\<in>fst (bfs_loop s ones (c # q) vis acc)
                      \<union> set (snd (bfs_loop s ones (c # q) vis acc)). R t"
      unfolding bfs_loop_Expand[OF Expand(1,2)] by blast
  qed
next
  case (Max c q vis acc)
  show ?case
  proof (intro impI)
    assume a: "\<forall>t\<in>set (c # q) \<union> vis \<union> set acc. R t"
    then have "\<forall>t\<in>set q \<union> insert c vis \<union> set (acc @ [c]). R t" by auto
    with Max(4) show "\<forall>t\<in>fst (bfs_loop s ones (c # q) vis acc)
                      \<union> set (snd (bfs_loop s ones (c # q) vis acc)). R t"
      unfolding bfs_loop_Max[OF Max(1,2,3)] by blast
  qed
next
  case (Skip c q vis acc)
  show ?case
  proof (intro impI)
    assume a: "\<forall>t\<in>set (c # q) \<union> vis \<union> set acc. R t"
    then have "\<forall>t\<in>set q \<union> insert c vis \<union> set acc. R t" by auto
    with Skip(4) show "\<forall>t\<in>fst (bfs_loop s ones (c # q) vis acc)
                      \<union> set (snd (bfs_loop s ones (c # q) vis acc)). R t"
      unfolding bfs_loop_Skip[OF Skip(1,2,3)] by blast
  qed
qed

lemma bfs_loop_acc:
  "t \<in> set (snd (bfs_loop s ones q vis acc)) \<longrightarrow>
     t \<in> set acc \<or> (expand t s = [] \<and> covers_mask t ones \<noteq> 0)"
proof (induction q vis acc rule: bfs_loop_induct[where s = s and ones = ones])
  case (Nil vis acc)
  show ?case by (simp add: bfs_loop_Nil)
next
  case (Visited c q vis acc)
  then show ?case by (simp add: bfs_loop_Visited)
next
  case (Expand c q vis acc)
  then show ?case by (simp add: bfs_loop_Expand)
next
  case (Max c q vis acc)
  then show ?case by (auto simp add: bfs_loop_Max)
next
  case (Skip c q vis acc)
  then show ?case by (simp add: bfs_loop_Skip)
qed

lemma bfs_loop_distinct:
  "set acc \<subseteq> vis \<and> distinct acc \<longrightarrow>
     set (snd (bfs_loop s ones q vis acc)) \<subseteq> fst (bfs_loop s ones q vis acc)
     \<and> distinct (snd (bfs_loop s ones q vis acc))"
proof (induction q vis acc rule: bfs_loop_induct[where s = s and ones = ones])
  case (Nil vis acc)
  show ?case by (simp add: bfs_loop_Nil)
next
  case (Visited c q vis acc)
  then show ?case by (simp add: bfs_loop_Visited)
next
  case (Expand c q vis acc)
  then show ?case by (auto simp add: bfs_loop_Expand)
next
  case (Max c q vis acc)
  then show ?case by (auto simp add: bfs_loop_Max)
next
  case (Skip c q vis acc)
  then show ?case by (auto simp add: bfs_loop_Skip)
qed

text \<open>
  The invariant behind completeness of the search: every visited interval either has no
  expansion, and is then recorded when it covers a required point, or has all its
  expansions visited or waiting in the queue.
\<close>

definition bfs_closure ::
  "nat \<Rightarrow> nat \<Rightarrow> BooleanInterval list \<Rightarrow> BooleanInterval set \<Rightarrow> BooleanInterval list \<Rightarrow> bool" where
  "bfs_closure s ones q vis acc \<longleftrightarrow>
     (\<forall>v\<in>vis. (expand v s = [] \<longrightarrow> covers_mask v ones \<noteq> 0 \<longrightarrow> v \<in> set acc)
              \<and> (\<forall>e\<in>set (expand v s). e \<in> vis \<or> e \<in> set q))"

lemma bfs_closureD1:
  "bfs_closure s ones q vis acc \<Longrightarrow> v \<in> vis \<Longrightarrow> expand v s = [] \<Longrightarrow>
     covers_mask v ones \<noteq> 0 \<Longrightarrow> v \<in> set acc"
  unfolding bfs_closure_def by blast

lemma bfs_closureD2:
  "bfs_closure s ones q vis acc \<Longrightarrow> v \<in> vis \<Longrightarrow> e \<in> set (expand v s) \<Longrightarrow>
     e \<in> vis \<or> e \<in> set q"
  unfolding bfs_closure_def by blast

lemma bfs_closureI:
  assumes "\<And>v. v \<in> vis \<Longrightarrow> expand v s = [] \<Longrightarrow> covers_mask v ones \<noteq> 0 \<Longrightarrow> v \<in> set acc"
    and "\<And>v e. v \<in> vis \<Longrightarrow> e \<in> set (expand v s) \<Longrightarrow> e \<in> vis \<or> e \<in> set q"
  shows "bfs_closure s ones q vis acc"
  unfolding bfs_closure_def using assms by blast

lemma bfs_closure_Visited:
  assumes "c \<in> vis" and cl: "bfs_closure s ones (c # q) vis acc"
  shows "bfs_closure s ones q vis acc"
proof (rule bfs_closureI)
  fix v assume "v \<in> vis" "expand v s = []" "covers_mask v ones \<noteq> 0"
  then show "v \<in> set acc" by (rule bfs_closureD1[OF cl])
next
  fix v e assume "v \<in> vis" "e \<in> set (expand v s)"
  from bfs_closureD2[OF cl this] show "e \<in> vis \<or> e \<in> set q" using assms(1) by auto
qed

lemma bfs_closure_Expand:
  assumes ne: "expand c s \<noteq> []" and cl: "bfs_closure s ones (c # q) vis acc"
  shows "bfs_closure s ones (q @ filter (\<lambda>e. e \<notin> insert c vis) (expand c s)) (insert c vis) acc"
proof (rule bfs_closureI)
  fix v assume v: "v \<in> insert c vis" and e: "expand v s = []" and c: "covers_mask v ones \<noteq> 0"
  from v e ne have "v \<in> vis" by auto
  then show "v \<in> set acc" using e c by (rule bfs_closureD1[OF cl])
next
  fix v e assume v: "v \<in> insert c vis" and e: "e \<in> set (expand v s)"
  show "e \<in> insert c vis \<or> e \<in> set (q @ filter (\<lambda>e. e \<notin> insert c vis) (expand c s))"
  proof (cases "v = c")
    case True
    with e show ?thesis by auto
  next
    case False
    with v have "v \<in> vis" by simp
    from bfs_closureD2[OF cl this e] show ?thesis by auto
  qed
qed

lemma bfs_closure_Max:
  assumes e: "expand c s = []" and cl: "bfs_closure s ones (c # q) vis acc"
  shows "bfs_closure s ones q (insert c vis) (acc @ [c])"
proof (rule bfs_closureI)
  fix v assume v: "v \<in> insert c vis" and ev: "expand v s = []" and c: "covers_mask v ones \<noteq> 0"
  show "v \<in> set (acc @ [c])"
  proof (cases "v = c")
    case True then show ?thesis by simp
  next
    case False
    with v have "v \<in> vis" by simp
    from bfs_closureD1[OF cl this ev c] show ?thesis by simp
  qed
next
  fix v x assume v: "v \<in> insert c vis" and x: "x \<in> set (expand v s)"
  from x e have "v \<noteq> c" by auto
  with v have "v \<in> vis" by simp
  from bfs_closureD2[OF cl this x] show "x \<in> insert c vis \<or> x \<in> set q" by auto
qed

lemma bfs_closure_Skip:
  assumes e: "expand c s = []" and z: "covers_mask c ones = 0"
    and cl: "bfs_closure s ones (c # q) vis acc"
  shows "bfs_closure s ones q (insert c vis) acc"
proof (rule bfs_closureI)
  fix v assume v: "v \<in> insert c vis" and ev: "expand v s = []" and c: "covers_mask v ones \<noteq> 0"
  from c z have "v \<noteq> c" by auto
  with v have "v \<in> vis" by simp
  from bfs_closureD1[OF cl this ev c] show "v \<in> set acc" .
next
  fix v x assume v: "v \<in> insert c vis" and x: "x \<in> set (expand v s)"
  from x e have "v \<noteq> c" by auto
  with v have "v \<in> vis" by simp
  from bfs_closureD2[OF cl this x] show "x \<in> insert c vis \<or> x \<in> set q" by auto
qed

lemma bfs_loop_closure:
  "bfs_closure s ones q vis acc \<longrightarrow>
     bfs_closure s ones [] (fst (bfs_loop s ones q vis acc)) (snd (bfs_loop s ones q vis acc))
     \<and> vis \<union> set q \<subseteq> fst (bfs_loop s ones q vis acc)"
proof (induction q vis acc rule: bfs_loop_induct[where s = s and ones = ones])
  case (Nil vis acc)
  show ?case by (simp add: bfs_loop_Nil)
next
  case (Visited c q vis acc)
  show ?case
  proof (intro impI)
    assume "bfs_closure s ones (c # q) vis acc"
    then have "bfs_closure s ones q vis acc" by (rule bfs_closure_Visited[OF Visited(1)])
    with Visited(2) have "bfs_closure s ones [] (fst (bfs_loop s ones q vis acc))
          (snd (bfs_loop s ones q vis acc)) \<and> vis \<union> set q \<subseteq> fst (bfs_loop s ones q vis acc)"
      by blast
    then show "bfs_closure s ones [] (fst (bfs_loop s ones (c # q) vis acc))
          (snd (bfs_loop s ones (c # q) vis acc))
          \<and> vis \<union> set (c # q) \<subseteq> fst (bfs_loop s ones (c # q) vis acc)"
      unfolding bfs_loop_Visited[OF Visited(1)] using Visited(1) by auto
  qed
next
  case (Expand c q vis acc)
  let ?q = "q @ filter (\<lambda>e. e \<notin> insert c vis) (expand c s)"
  show ?case
  proof (intro impI)
    assume "bfs_closure s ones (c # q) vis acc"
    then have "bfs_closure s ones ?q (insert c vis) acc" by (rule bfs_closure_Expand[OF Expand(2)])
    with Expand(3) have "bfs_closure s ones [] (fst (bfs_loop s ones ?q (insert c vis) acc))
          (snd (bfs_loop s ones ?q (insert c vis) acc))
          \<and> insert c vis \<union> set ?q \<subseteq> fst (bfs_loop s ones ?q (insert c vis) acc)"
      by blast
    then show "bfs_closure s ones [] (fst (bfs_loop s ones (c # q) vis acc))
          (snd (bfs_loop s ones (c # q) vis acc))
          \<and> vis \<union> set (c # q) \<subseteq> fst (bfs_loop s ones (c # q) vis acc)"
      unfolding bfs_loop_Expand[OF Expand(1,2)] by auto
  qed
next
  case (Max c q vis acc)
  show ?case
  proof (intro impI)
    assume "bfs_closure s ones (c # q) vis acc"
    then have "bfs_closure s ones q (insert c vis) (acc @ [c])" by (rule bfs_closure_Max[OF Max(2)])
    with Max(4) have "bfs_closure s ones [] (fst (bfs_loop s ones q (insert c vis) (acc @ [c])))
          (snd (bfs_loop s ones q (insert c vis) (acc @ [c])))
          \<and> insert c vis \<union> set q \<subseteq> fst (bfs_loop s ones q (insert c vis) (acc @ [c]))"
      by blast
    then show "bfs_closure s ones [] (fst (bfs_loop s ones (c # q) vis acc))
          (snd (bfs_loop s ones (c # q) vis acc))
          \<and> vis \<union> set (c # q) \<subseteq> fst (bfs_loop s ones (c # q) vis acc)"
      unfolding bfs_loop_Max[OF Max(1,2,3)] by auto
  qed
next
  case (Skip c q vis acc)
  show ?case
  proof (intro impI)
    assume "bfs_closure s ones (c # q) vis acc"
    then have "bfs_closure s ones q (insert c vis) acc" by (rule bfs_closure_Skip[OF Skip(2,3)])
    with Skip(4) have "bfs_closure s ones [] (fst (bfs_loop s ones q (insert c vis) acc))
          (snd (bfs_loop s ones q (insert c vis) acc))
          \<and> insert c vis \<union> set q \<subseteq> fst (bfs_loop s ones q (insert c vis) acc)"
      by blast
    then show "bfs_closure s ones [] (fst (bfs_loop s ones (c # q) vis acc))
          (snd (bfs_loop s ones (c # q) vis acc))
          \<and> vis \<union> set (c # q) \<subseteq> fst (bfs_loop s ones (c # q) vis acc)"
      unfolding bfs_loop_Skip[OF Skip(1,2,3)] by auto
  qed
qed

subsection \<open>Redundancy elimination and sorting keep a sublist\<close>

lemma unique_intervals_of_subset: "set (unique_intervals_of xs) \<subseteq> set xs"
proof -
  have "set (map snd (filter P (enumerate 0 xs))) \<subseteq> set xs" for P
    by (auto simp: in_set_enumerate_eq)
  then show ?thesis unfolding unique_intervals_of_def .
qed

lemma set_insort_interval: "set (insort_interval x ys) = insert x (set ys)"
  by (induction ys) auto

lemma set_sort_intervals: "set (sort_intervals xs) = set xs"
  unfolding sort_intervals_def by (induction xs) (simp_all add: set_insort_interval)

lemma find_all_max_intervals_fst:
  "fst (find_all_max_intervals st) =
     sort_intervals (unique_intervals_of (snd (bfs_loop (significant_mask (func st))
        (ones_mask (func st))
        (start_intervals_loop (mm_n st) (significant_mask (func st)) []) {} [])))"
  by (simp add: find_all_max_intervals_def Let_def split: prod.splits)

lemma find_all_max_intervals_snd:
  "snd (find_all_max_intervals st) = st\<lparr>all_intervals := fst (find_all_max_intervals st)\<rparr>"
  by (simp add: find_all_max_intervals_def Let_def split: prod.splits)

lemma find_all_max_intervals_subset:
  "set (fst (find_all_max_intervals st)) \<subseteq>
     set (snd (bfs_loop (significant_mask (func st)) (ones_mask (func st))
        (start_intervals_loop (mm_n st) (significant_mask (func st)) []) {} []))"
  unfolding find_all_max_intervals_fst set_sort_intervals by (rule unique_intervals_of_subset)

lemma max_interval_props:
  assumes "t \<in> set (fst (find_all_max_intervals st))"
  shows "expand t (significant_mask (func st)) = []"
    and "covers_mask t (ones_mask (func st)) \<noteq> 0"
proof -
  from assms find_all_max_intervals_subset
  have "t \<in> set (snd (bfs_loop (significant_mask (func st)) (ones_mask (func st))
        (start_intervals_loop (mm_n st) (significant_mask (func st)) []) {} []))" by blast
  with bfs_loop_acc[of t "significant_mask (func st)" "ones_mask (func st)" _ "{}" "[]"]
  show "expand t (significant_mask (func st)) = []"
    and "covers_mask t (ones_mask (func st)) \<noteq> 0" by auto
qed

text \<open>
  Claim C3. Maximality: for a successfully constructed function, every implicant in the
  list returned by \<open>find_all_max_intervals\<close> has no admissible single-literal-drop
  generalization: \<open>expand\<close> with the mask \<open>ones_mask OR dcares_mask\<close> returns the empty list.
\<close>

theorem maximal_intervals_not_expandable:
  assumes "PartialBooleanFunction_init n ones dcares = Inr f"
    and "t \<in> set (fst (find_all_max_intervals (MaximalIntervalsMinimizer_init f)))"
  shows "expand t (ones_mask f OR dcares_mask f) = []"
proof -
  have "func (MaximalIntervalsMinimizer_init f) = f"
    by (simp add: MaximalIntervalsMinimizer_init_def)
  with max_interval_props(1)[OF assms(2)] have "expand t (significant_mask f) = []" by simp
  then show ?thesis by (simp add: init_Inr_fields(6)[OF assms(1)])
qed

lemma example4_init:
  "PartialBooleanFunction_init 2 [0, 3] [1] =
     Inr \<lparr>pf_n = 2, total_points = 4, ones_mask = 9, dcares_mask = 2,
          significant_mask = 11, zeros_mask = 4\<rparr>"
  by code_simp

lemma example4_max_intervals:
  "fst (find_all_max_intervals (MaximalIntervalsMinimizer_init
      \<lparr>pf_n = 2, total_points = 4, ones_mask = 9, dcares_mask = 2,
       significant_mask = 11, zeros_mask = 4\<rparr>)) =
    [\<lparr>bi_n = 2, bi_mask = 2, bi_value = 0\<rparr>, \<lparr>bi_n = 2, bi_mask = 1, bi_value = 1\<rparr>]"
  by code_simp

theorem maximal_intervals_not_expandable_witness:
  "PartialBooleanFunction_init 2 [0, 3] [1] =
     Inr \<lparr>pf_n = 2, total_points = 4, ones_mask = 9, dcares_mask = 2,
          significant_mask = 11, zeros_mask = 4\<rparr>
   \<and> \<lparr>bi_n = 2, bi_mask = 2, bi_value = 0\<rparr> \<in> set (fst (find_all_max_intervals
        (MaximalIntervalsMinimizer_init \<lparr>pf_n = 2, total_points = 4, ones_mask = 9,
           dcares_mask = 2, significant_mask = 11, zeros_mask = 4\<rparr>)))
   \<and> expand \<lparr>bi_n = 2, bi_mask = 2, bi_value = 0\<rparr> (9 OR 2) = []"
proof -
  let ?f = "\<lparr>pf_n = 2, total_points = 4, ones_mask = 9, dcares_mask = 2,
          significant_mask = 11, zeros_mask = 4\<rparr>"
  have m: "\<lparr>bi_n = 2, bi_mask = 2, bi_value = 0\<rparr>
      \<in> set (fst (find_all_max_intervals (MaximalIntervalsMinimizer_init ?f)))"
    unfolding example4_max_intervals by simp
  show ?thesis
    using example4_init m maximal_intervals_not_expandable[OF example4_init m] by simp
qed

section \<open>Cover selection and the formula\<close>

subsection \<open>The empty function\<close>

lemma bfs_loop_no_ones: "snd (bfs_loop s 0 q vis acc) = acc"
proof (induction q vis acc rule: bfs_loop_induct[where s = s and ones = 0])
  case (Nil vis acc)
  show ?case by (simp add: bfs_loop_Nil)
next
  case (Visited c q vis acc)
  then show ?case by (simp add: bfs_loop_Visited)
next
  case (Expand c q vis acc)
  then show ?case by (simp add: bfs_loop_Expand)
next
  case (Max c q vis acc)
  then show ?case by (simp add: covers_mask_0)
next
  case (Skip c q vis acc)
  then show ?case by (simp add: bfs_loop_Skip)
qed

lemma find_all_max_intervals_no_ones:
  "ones_mask (func st) = 0 \<Longrightarrow> fst (find_all_max_intervals st) = []"
  by (simp add: find_all_max_intervals_fst bfs_loop_no_ones unique_intervals_of_def
      sort_intervals_def)

lemma func_find_all_max_intervals: "func (snd (find_all_max_intervals st)) = func st"
  by (simp add: find_all_max_intervals_snd)

lemma all_intervals_find_all_max_intervals:
  "all_intervals (snd (find_all_max_intervals st)) = fst (find_all_max_intervals st)"
  by (simp add: find_all_max_intervals_snd)

lemma and_not_0: "and_not 0 x = 0"
  by (simp add: and_not_def)

lemma find_essential_intervals_no_ones:
  assumes "ones_mask (func st) = 0" and "all_intervals st = []"
  shows "fst (find_essential_intervals st) = []"
    and "func (snd (find_essential_intervals st)) = func st"
proof -
  let ?st1 = "snd (find_all_max_intervals st)"
  have a: "all_intervals ?st1 = []"
    using assms(1) by (simp add: all_intervals_find_all_max_intervals find_all_max_intervals_no_ones)
  have o: "ones_mask (func ?st1) = 0" using assms(1) by (simp add: func_find_all_max_intervals)
  show "fst (find_essential_intervals st) = []"
    using assms(2) a o
    by (simp add: find_essential_intervals_def Let_def ones_points_loop.simps
        essential_stage1_def and_not_0 essential_greedy_loop.simps split: prod.splits)
  show "func (snd (find_essential_intervals st)) = func st"
    using assms(2)
    by (simp add: find_essential_intervals_def Let_def func_find_all_max_intervals split: prod.splits)
qed

lemma minimize_unfold:
  "minimize st =
     (let st1 = snd (find_all_max_intervals st);
          essential = fst (find_essential_intervals st1);
          st2 = snd (find_essential_intervals st1);
          covered_mask =
            fold (\<lambda>interval cm. cm OR covers_mask interval (ones_mask (func st2))) essential 0
      in if covered_mask = ones_mask (func st2) then (essential, st2)
         else (greedy_cover (func st2) (fst (find_all_max_intervals st)), st2))"
  by (simp add: minimize_def Let_def split: prod.splits)

lemma minimize_no_ones:
  assumes "ones_mask (func st) = 0"
  shows "fst (minimize st) = []"
proof -
  let ?st1 = "snd (find_all_max_intervals st)"
  have o: "ones_mask (func ?st1) = 0" using assms by (simp add: func_find_all_max_intervals)
  have a: "all_intervals ?st1 = []"
    using assms by (simp add: all_intervals_find_all_max_intervals find_all_max_intervals_no_ones)
  note E = find_essential_intervals_no_ones[OF o a]
  show ?thesis
    unfolding minimize_unfold Let_def by (simp add: E o)
qed

lemma get_minimal_dnf_fst:
  "fst (get_minimal_dnf st) =
     (if fst (minimize st) = [] then ''0'' else dnf_terms_loop (fst (minimize st)) [])"
  by (cases "minimize st") (simp add: get_minimal_dnf_def)

text \<open>
  Claim C10. For a successfully constructed function whose \<open>ones_mask\<close> is zero (no
  in-range index in the ones list), whatever the don't-cares, \<open>minimize\<close> returns the empty
  list and \<open>get_minimal_dnf\<close> returns the string \<open>0\<close>.
\<close>

theorem empty_function_result:
  assumes "PartialBooleanFunction_init n ones dcares = Inr f" and "ones_mask f = 0"
  shows "fst (minimize (MaximalIntervalsMinimizer_init f)) = []
       \<and> fst (get_minimal_dnf (MaximalIntervalsMinimizer_init f)) = ''0''"
proof -
  have "ones_mask (func (MaximalIntervalsMinimizer_init f)) = 0"
    using assms(2) by (simp add: MaximalIntervalsMinimizer_init_def)
  then have "fst (minimize (MaximalIntervalsMinimizer_init f)) = []" by (rule minimize_no_ones)
  then show ?thesis by (simp add: get_minimal_dnf_fst)
qed

lemma dont_care_only_init:
  "PartialBooleanFunction_init 2 [4, -1] [1, 2] =
     Inr \<lparr>pf_n = 2, total_points = 4, ones_mask = 0, dcares_mask = 6,
          significant_mask = 6, zeros_mask = 9\<rparr>"
  by code_simp

theorem empty_function_result_witness:
  "PartialBooleanFunction_init 2 [4, -1] [1, 2] =
     Inr \<lparr>pf_n = 2, total_points = 4, ones_mask = 0, dcares_mask = 6,
          significant_mask = 6, zeros_mask = 9\<rparr>
   \<and> ones_mask \<lparr>pf_n = 2, total_points = 4, ones_mask = 0, dcares_mask = 6,
          significant_mask = 6, zeros_mask = 9\<rparr> = 0
   \<and> fst (minimize (MaximalIntervalsMinimizer_init \<lparr>pf_n = 2, total_points = 4, ones_mask = 0,
          dcares_mask = 6, significant_mask = 6, zeros_mask = 9\<rparr>)) = []
   \<and> fst (get_minimal_dnf (MaximalIntervalsMinimizer_init \<lparr>pf_n = 2, total_points = 4,
          ones_mask = 0, dcares_mask = 6, significant_mask = 6, zeros_mask = 9\<rparr>)) = ''0''"
proof -
  let ?f = "\<lparr>pf_n = 2, total_points = 4, ones_mask = 0, dcares_mask = 6,
          significant_mask = 6, zeros_mask = 9\<rparr>"
  have z: "ones_mask ?f = 0" by simp
  show ?thesis
    using dont_care_only_init z empty_function_result[OF dont_care_only_init z] by simp
qed

subsection \<open>What the results depend on\<close>

text \<open>
  The list \<open>find_essential_intervals\<close> returns, as a function of the two things it
  reads: \<open>ones_mask\<close> and the list of maximal intervals.
\<close>

definition essential_of :: "nat \<Rightarrow> BooleanInterval list \<Rightarrow> BooleanInterval list" where
  "essential_of ones intervals =
     (let coverage_map0 = snd (ones_points_loop ones [] []);
          coverage_map =
            fold (\<lambda>interval cm. coverage_fill_loop interval (covers_mask interval ones) cm)
              intervals coverage_map0;
          essential = fst (essential_stage1 ones coverage_map);
          covered_mask = snd (essential_stage1 ones coverage_map)
      in essential_greedy_loop ones intervals essential covered_mask (and_not ones covered_mask))"

lemma find_essential_intervals_fst:
  "fst (find_essential_intervals st) =
     (if all_intervals st = []
      then essential_of (ones_mask (func st)) (fst (find_all_max_intervals st))
      else essential_of (ones_mask (func st)) (all_intervals st))"
  by (simp add: find_essential_intervals_def essential_of_def Let_def
      func_find_all_max_intervals all_intervals_find_all_max_intervals split: prod.splits)

lemma mm_n_find_all_max_intervals: "mm_n (snd (find_all_max_intervals st)) = mm_n st"
  by (simp add: find_all_max_intervals_snd)

lemma find_essential_intervals_snd:
  "func (snd (find_essential_intervals st)) = func st"
  "mm_n (snd (find_essential_intervals st)) = mm_n st"
  by (simp_all add: find_essential_intervals_def Let_def func_find_all_max_intervals
      mm_n_find_all_max_intervals split: prod.splits)

lemma find_all_max_intervals_cong:
  "func st = func st' \<Longrightarrow> mm_n st = mm_n st' \<Longrightarrow>
     fst (find_all_max_intervals st) = fst (find_all_max_intervals st')"
  by (simp add: find_all_max_intervals_fst)

lemma find_all_max_intervals_again:
  "fst (find_all_max_intervals (snd (find_all_max_intervals st))) = fst (find_all_max_intervals st)"
  by (rule find_all_max_intervals_cong)
     (simp_all add: func_find_all_max_intervals mm_n_find_all_max_intervals)

lemma minimize_fst:
  "fst (minimize st) =
     (let max_intervals = fst (find_all_max_intervals st);
          ones = ones_mask (func st);
          essential = essential_of ones max_intervals
      in if fold (\<lambda>interval cm. cm OR covers_mask interval ones) essential 0 = ones
         then essential else greedy_cover (func st) max_intervals)"
proof -
  let ?st1 = "snd (find_all_max_intervals st)"
  have e: "fst (find_essential_intervals ?st1)
      = essential_of (ones_mask (func st)) (fst (find_all_max_intervals st))"
    unfolding find_essential_intervals_fst
    by (simp add: func_find_all_max_intervals all_intervals_find_all_max_intervals
        find_all_max_intervals_again)
  have f: "func (snd (find_essential_intervals ?st1)) = func st"
    by (simp add: find_essential_intervals_snd func_find_all_max_intervals)
  show ?thesis
    unfolding minimize_unfold Let_def e f by simp
qed

lemma minimize_snd:
  "func (snd (minimize st)) = func st" "mm_n (snd (minimize st)) = mm_n st"
  unfolding minimize_unfold Let_def
  by (simp_all add: find_essential_intervals_snd func_find_all_max_intervals
      mm_n_find_all_max_intervals)

lemma minimize_cong:
  "func st = func st' \<Longrightarrow> mm_n st = mm_n st' \<Longrightarrow> fst (minimize st) = fst (minimize st')"
  unfolding minimize_fst Let_def by (simp add: find_all_max_intervals_cong[of st st'])

lemma get_minimal_dnf_snd:
  "func (snd (get_minimal_dnf st)) = func st" "mm_n (snd (get_minimal_dnf st)) = mm_n st"
  using minimize_snd[of st]
  by (cases "minimize st"; simp add: get_minimal_dnf_def)+

lemma get_minimal_dnf_cong:
  "func st = func st' \<Longrightarrow> mm_n st = mm_n st' \<Longrightarrow>
     fst (get_minimal_dnf st) = fst (get_minimal_dnf st')"
  unfolding get_minimal_dnf_fst by (simp add: minimize_cong[of st st'])

text \<open>
  Claim C8. Determinism: the formula string of \<open>get_minimal_dnf\<close> depends only on the
  function and variable count the minimizer was built from. It is the same whatever the
  cached lists \<open>all_intervals\<close> and \<open>essential_intervals\<close> hold, the same when the call
  is repeated on the state the first call leaves behind, and the same as on a freshly
  constructed minimizer; tie-breaking is by list order throughout.
\<close>

theorem minimal_dnf_deterministic:
  "fst (get_minimal_dnf (st\<lparr>all_intervals := ai, essential_intervals := ei\<rparr>))
      = fst (get_minimal_dnf st)
   \<and> fst (get_minimal_dnf (snd (get_minimal_dnf st))) = fst (get_minimal_dnf st)
   \<and> fst (get_minimal_dnf st)
      = fst (get_minimal_dnf (MaximalIntervalsMinimizer_init (func st)\<lparr>mm_n := mm_n st\<rparr>))"
proof (intro conjI)
  show "fst (get_minimal_dnf (st\<lparr>all_intervals := ai, essential_intervals := ei\<rparr>))
      = fst (get_minimal_dnf st)"
    by (rule get_minimal_dnf_cong) simp_all
  show "fst (get_minimal_dnf (snd (get_minimal_dnf st))) = fst (get_minimal_dnf st)"
    by (rule get_minimal_dnf_cong) (simp_all add: get_minimal_dnf_snd)
  show "fst (get_minimal_dnf st)
      = fst (get_minimal_dnf (MaximalIntervalsMinimizer_init (func st)\<lparr>mm_n := mm_n st\<rparr>))"
    by (rule get_minimal_dnf_cong) (simp_all add: MaximalIntervalsMinimizer_init_def)
qed

subsection \<open>The selected implicants are maximal intervals\<close>

text \<open>
  All intervals stored anywhere in a coverage map.
\<close>

definition cm_vals :: "(nat \<times> BooleanInterval list) list \<Rightarrow> BooleanInterval set" where
  "cm_vals cm = (\<Union>kv\<in>set cm. set (snd kv))"

lemma cm_vals_Nil: "cm_vals [] = {}"
  by (simp add: cm_vals_def)

lemma cm_vals_Cons: "cm_vals ((k, v) # cm) = set v \<union> cm_vals cm"
  by (simp add: cm_vals_def)

lemma cm_vals_dict_set: "cm_vals (dict_set cm k v) \<subseteq> cm_vals cm \<union> set v"
proof (induction cm)
  case Nil
  show ?case by (simp add: cm_vals_Nil cm_vals_Cons)
next
  case (Cons kv cm)
  obtain k' v' where kv: "kv = (k', v')" by (cases kv)
  show ?case using Cons.IH by (auto simp: kv cm_vals_Cons)
qed

lemma cm_vals_map_of: "map_of cm k = Some ivs \<Longrightarrow> set ivs \<subseteq> cm_vals cm"
  by (auto simp: cm_vals_def dest!: map_of_SomeD)

lemma ones_points_loop_vals: "cm_vals (snd (ones_points_loop temp ps cm)) \<subseteq> cm_vals cm"
proof (induction temp arbitrary: ps cm rule: less_induct)
  case (less temp)
  show ?case
  proof (cases "temp = 0")
    case True
    then show ?thesis by (simp add: ones_points_loop.simps)
  next
    case False
    let ?p = "bit_length (lsb_of temp) - 1"
    have "ones_points_loop temp ps cm
        = ones_points_loop (temp XOR lsb_of temp) (ps @ [?p]) (dict_set cm ?p [])"
      using False by (subst ones_points_loop.simps) (simp add: Let_def del: One_nat_def)
    moreover have "cm_vals (snd (ones_points_loop (temp XOR lsb_of temp) (ps @ [?p])
        (dict_set cm ?p []))) \<subseteq> cm_vals (dict_set cm ?p [])"
      by (rule less.IH[OF xor_lsb_less[OF False]])
    moreover have "cm_vals (dict_set cm ?p []) \<subseteq> cm_vals cm"
      using cm_vals_dict_set[of cm ?p "[]"] by simp
    ultimately show ?thesis by simp
  qed
qed

lemma coverage_fill_loop_vals:
  "cm_vals (coverage_fill_loop interval temp cm) \<subseteq> insert interval (cm_vals cm)"
proof (induction temp arbitrary: cm rule: less_induct)
  case (less temp)
  show ?case
  proof (cases "temp = 0")
    case True
    then show ?thesis by (auto simp add: coverage_fill_loop.simps)
  next
    case False
    let ?p = "bit_length (lsb_of temp) - 1"
    let ?cm = "case map_of cm ?p of Some intervals \<Rightarrow> dict_set cm ?p (intervals @ [interval])
                | None \<Rightarrow> cm"
    have "coverage_fill_loop interval temp cm
        = coverage_fill_loop interval (temp XOR lsb_of temp) ?cm"
      using False by (subst coverage_fill_loop.simps) (simp add: Let_def del: One_nat_def)
    moreover have "cm_vals (coverage_fill_loop interval (temp XOR lsb_of temp) ?cm)
        \<subseteq> insert interval (cm_vals ?cm)"
      by (rule less.IH[OF xor_lsb_less[OF False]])
    moreover have "cm_vals ?cm \<subseteq> insert interval (cm_vals cm)"
    proof (cases "map_of cm ?p")
      case None then show ?thesis by auto
    next
      case (Some ivs)
      then show ?thesis
        using cm_vals_dict_set[of cm ?p "ivs @ [interval]"] cm_vals_map_of[OF Some] by auto
    qed
    ultimately show ?thesis by auto
  qed
qed

lemma coverage_fold_vals:
  "cm_vals (fold (\<lambda>interval cm. coverage_fill_loop interval (g interval) cm) intervals cm)
     \<subseteq> set intervals \<union> cm_vals cm"
proof (induction intervals arbitrary: cm)
  case Nil
  show ?case by simp
next
  case (Cons x xs)
  have "cm_vals (fold (\<lambda>interval cm. coverage_fill_loop interval (g interval) cm) xs
          (coverage_fill_loop x (g x) cm)) \<subseteq> set xs \<union> cm_vals (coverage_fill_loop x (g x) cm)"
    by (rule Cons.IH)
  then show ?case using coverage_fill_loop_vals[of x "g x" cm] by auto
qed

lemma essential_stage1_fold_subset:
  "set (fst (fold (\<lambda>(point, intervals) (essential, covered_mask).
             if length intervals = 1
             then let interval = intervals ! 0
                  in if interval \<notin> set essential
                     then (essential @ [interval], covered_mask OR covers_mask interval ones)
                     else (essential, covered_mask)
             else (essential, covered_mask)) cm (e0, c0))) \<subseteq> set e0 \<union> cm_vals cm"
proof (induction cm arbitrary: e0 c0)
  case Nil
  show ?case by simp
next
  case (Cons kv cm)
  obtain point ivs where kv: "kv = (point, ivs)" by (cases kv)
  have h: "length ivs = Suc 0 \<Longrightarrow> ivs ! 0 \<in> set ivs" by (cases ivs) auto
  have v: "cm_vals (kv # cm) = set ivs \<union> cm_vals cm" by (simp add: kv cm_vals_def)
  show ?case
  proof (cases "length ivs = Suc 0 \<and> ivs ! 0 \<notin> set e0")
    case True
    then show ?thesis
      unfolding kv[symmetric] v
      using Cons.IH[of "e0 @ [ivs ! 0]" "c0 OR covers_mask (ivs ! 0) ones"] h
      by (auto simp: kv Let_def)
  next
    case False
    then show ?thesis
      unfolding kv[symmetric] v
      using Cons.IH[of e0 c0]
      by (auto simp: kv Let_def)
  qed
qed

lemma essential_stage1_subset: "set (fst (essential_stage1 ones cm)) \<subseteq> cm_vals cm"
  unfolding essential_stage1_def using essential_stage1_fold_subset[of ones cm "[]" 0] by simp

lemma essential_greedy_loop_subset:
  "set (essential_greedy_loop ones intervals essential covered remaining)
     \<subseteq> set essential \<union> set intervals"
proof (induction ones intervals essential covered remaining rule: essential_greedy_loop.induct)
  case (1 ones intervals essential covered remaining)
  show ?case
  proof (cases "remaining = 0")
    case True
    then show ?thesis by (simp add: essential_greedy_loop.simps)
  next
    case False
    obtain b c where sb: "select_best intervals essential remaining = (b, c)"
      by (cases "select_best intervals essential remaining")
    show ?thesis
    proof (cases b)
      case None
      with False sb show ?thesis by (simp add: essential_greedy_loop.simps)
    next
      case (Some best)
      from select_best_Some[OF sb[unfolded Some]] have bi: "best \<in> set intervals" by simp
      have "set (essential_greedy_loop ones intervals (essential @ [best])
              (covered OR covers_mask best ones)
              (and_not ones (covered OR covers_mask best ones)))
            \<subseteq> set (essential @ [best]) \<union> set intervals"
        by (rule "1.IH"[OF False sb[unfolded Some, symmetric] refl refl refl refl])
      then show ?thesis
        using False sb Some bi
        by (subst essential_greedy_loop.simps) (auto simp: Let_def)
    qed
  qed
qed

lemma greedy_cover_loop_subset:
  "set (greedy_cover_loop ones intervals uncovered result) \<subseteq> set result \<union> set intervals"
proof (induction ones intervals uncovered result rule: greedy_cover_loop.induct)
  case (1 ones intervals uncovered result)
  show ?case
  proof (cases "uncovered = 0")
    case True
    then show ?thesis by (simp add: greedy_cover_loop.simps)
  next
    case False
    obtain b c where sb: "select_best intervals result uncovered = (b, c)"
      by (cases "select_best intervals result uncovered")
    show ?thesis
    proof (cases b)
      case None
      with False sb show ?thesis by (simp add: greedy_cover_loop.simps)
    next
      case (Some best)
      from select_best_Some[OF sb[unfolded Some]] have bi: "best \<in> set intervals" and c: "0 < c"
        by simp_all
      have "set (greedy_cover_loop ones intervals (and_not uncovered (covers_mask best ones))
              (result @ [best])) \<subseteq> set (result @ [best]) \<union> set intervals"
        by (rule "1.IH"[OF False sb[unfolded Some, symmetric] refl c])
      then show ?thesis
        using False sb Some bi c
        by (subst greedy_cover_loop.simps) auto
    qed
  qed
qed

lemma essential_of_subset: "set (essential_of ones intervals) \<subseteq> set intervals"
proof -
  let ?cm = "fold (\<lambda>interval cm. coverage_fill_loop interval (covers_mask interval ones) cm)
              intervals (snd (ones_points_loop ones [] []))"
  have "cm_vals ?cm \<subseteq> set intervals \<union> cm_vals (snd (ones_points_loop ones [] []))"
    by (rule coverage_fold_vals)
  moreover have "cm_vals (snd (ones_points_loop ones [] [])) \<subseteq> cm_vals []"
    by (rule ones_points_loop_vals)
  ultimately have "cm_vals ?cm \<subseteq> set intervals" by (auto simp: cm_vals_def)
  with essential_stage1_subset[of ones ?cm]
  have "set (fst (essential_stage1 ones ?cm)) \<subseteq> set intervals" by blast
  then show ?thesis
    unfolding essential_of_def Let_def
    using essential_greedy_loop_subset[of ones intervals "fst (essential_stage1 ones ?cm)"
        "snd (essential_stage1 ones ?cm)" "and_not ones (snd (essential_stage1 ones ?cm))"]
    by blast
qed

lemma greedy_cover_subset: "set (greedy_cover f intervals) \<subseteq> set intervals"
  unfolding greedy_cover_def using greedy_cover_loop_subset[of _ intervals _ "[]"] by simp

lemma minimize_subset: "set (fst (minimize st)) \<subseteq> set (fst (find_all_max_intervals st))"
  unfolding minimize_fst Let_def using essential_of_subset greedy_cover_subset by auto

subsection \<open>Soundness\<close>

lemma seeds_legal:
  assumes f: "PartialBooleanFunction_init n ones dcares = Inr f"
    and t: "t \<in> set (start_intervals_loop (pf_n f) (significant_mask f) [])"
  shows "legal (pf_n f) (significant_mask f) t"
proof -
  from t obtain p where p: "bit (significant_mask f) p"
    and t': "t = BooleanInterval_init (pf_n f) (int (2 ^ pf_n f - 1)) (int p)"
    unfolding start_intervals_loop_set by auto
  show ?thesis unfolding t' by (rule seed_legal[OF init_Inr_bits(2)[OF f p] p])
qed

lemma bfs_legal:
  assumes f: "PartialBooleanFunction_init n ones dcares = Inr f"
    and t: "t \<in> fst (bfs_loop (significant_mask f) (ones_mask f)
                  (start_intervals_loop (pf_n f) (significant_mask f) []) {} [])
              \<union> set (snd (bfs_loop (significant_mask f) (ones_mask f)
                  (start_intervals_loop (pf_n f) (significant_mask f) []) {} []))"
  shows "legal (pf_n f) (significant_mask f) t"
proof -
  let ?R = "legal (pf_n f) (significant_mask f)"
  let ?seeds = "start_intervals_loop (pf_n f) (significant_mask f) []"
  have init: "\<forall>t\<in>set ?seeds \<union> {} \<union> set []. ?R t"
  proof
    fix t assume "t \<in> set ?seeds \<union> {} \<union> set []"
    then have "t \<in> set ?seeds" by simp
    then show "?R t" by (rule seeds_legal[OF f])
  qed
  have cl: "\<And>t e. ?R t \<Longrightarrow> e \<in> set (expand t (significant_mask f)) \<Longrightarrow> ?R e"
    by (rule expand_legal)
  have "(\<forall>t\<in>set ?seeds \<union> {} \<union> set []. ?R t) \<longrightarrow>
     (\<forall>t\<in>fst (bfs_loop (significant_mask f) (ones_mask f) ?seeds {} [])
          \<union> set (snd (bfs_loop (significant_mask f) (ones_mask f) ?seeds {} [])). ?R t)"
    by (rule bfs_loop_closed[of ?R "significant_mask f", OF cl])
  then have "\<forall>t\<in>fst (bfs_loop (significant_mask f) (ones_mask f) ?seeds {} [])
          \<union> set (snd (bfs_loop (significant_mask f) (ones_mask f) ?seeds {} [])). ?R t"
    using init by (rule mp)
  then show ?thesis using t by (rule bspec)
qed

lemma max_intervals_legal:
  assumes f: "PartialBooleanFunction_init n ones dcares = Inr f"
    and t: "t \<in> set (fst (find_all_max_intervals (MaximalIntervalsMinimizer_init f)))"
  shows "legal (pf_n f) (significant_mask f) t"
proof -
  have s: "func (MaximalIntervalsMinimizer_init f) = f" "mm_n (MaximalIntervalsMinimizer_init f) = pf_n f"
    by (simp_all add: MaximalIntervalsMinimizer_init_def)
  have "t \<in> set (snd (bfs_loop (significant_mask f) (ones_mask f)
                  (start_intervals_loop (pf_n f) (significant_mask f) []) {} []))"
    using t find_all_max_intervals_subset[of "MaximalIntervalsMinimizer_init f"]
    unfolding s by (rule subsetD[rotated])
  then have "t \<in> fst (bfs_loop (significant_mask f) (ones_mask f)
                  (start_intervals_loop (pf_n f) (significant_mask f) []) {} [])
              \<union> set (snd (bfs_loop (significant_mask f) (ones_mask f)
                  (start_intervals_loop (pf_n f) (significant_mask f) []) {} []))"
    by (rule UnI2)
  then show ?thesis by (rule bfs_legal[OF f])
qed

lemma essential_subset_max:
  "set (fst (find_essential_intervals (snd (find_all_max_intervals st))))
          \<subseteq> set (fst (find_all_max_intervals st))"
proof -
  have "fst (find_essential_intervals (snd (find_all_max_intervals st)))
        = essential_of (ones_mask (func (snd (find_all_max_intervals st))))
            (fst (find_all_max_intervals st))"
    by (simp add: find_essential_intervals_fst find_all_max_intervals_again
        all_intervals_find_all_max_intervals)
  then show ?thesis using essential_of_subset by simp
qed

text \<open>
  Claim C2. Soundness: for a successfully constructed function, every interval the search
  generates covers no forced-zero point: every seed, every interval dequeued and marked
  visited together with every expansion computed from it (the enqueued intervals), every
  recorded candidate, every interval returned by \<open>find_all_max_intervals\<close> and by
  \<open>find_essential_intervals\<close>, and every implicant returned by \<open>minimize\<close>; the latter
  also cover at least one point of \<open>ones_mask\<close>.
\<close>

theorem soundness:
  assumes f: "PartialBooleanFunction_init n ones dcares = Inr f"
  shows "(\<forall>t\<in>set (start_intervals_loop (pf_n f) (significant_mask f) []).
            covers_mask t (zeros_mask f) = 0)
       \<and> (\<forall>t\<in>fst (bfs_loop (significant_mask f) (ones_mask f)
                     (start_intervals_loop (pf_n f) (significant_mask f) []) {} []).
            covers_mask t (zeros_mask f) = 0
            \<and> (\<forall>e\<in>set (expand t (significant_mask f)). covers_mask e (zeros_mask f) = 0))
       \<and> (\<forall>t\<in>set (snd (bfs_loop (significant_mask f) (ones_mask f)
                     (start_intervals_loop (pf_n f) (significant_mask f) []) {} [])).
            covers_mask t (zeros_mask f) = 0)
       \<and> (\<forall>t\<in>set (fst (find_all_max_intervals (MaximalIntervalsMinimizer_init f))).
            covers_mask t (zeros_mask f) = 0)
       \<and> (\<forall>t\<in>set (fst (find_essential_intervals
                     (snd (find_all_max_intervals (MaximalIntervalsMinimizer_init f))))).
            covers_mask t (zeros_mask f) = 0)
       \<and> (\<forall>t\<in>set (fst (minimize (MaximalIntervalsMinimizer_init f))).
            covers_mask t (zeros_mask f) = 0 \<and> covers_mask t (ones_mask f) \<noteq> 0)"
proof (intro conjI ballI)
  let ?st = "MaximalIntervalsMinimizer_init f"
  let ?seeds = "start_intervals_loop (pf_n f) (significant_mask f) []"
  let ?bfs = "bfs_loop (significant_mask f) (ones_mask f) ?seeds {} []"
  note Z = legal_covers_zeros[OF f]
  have fst: "func ?st = f" by (simp add: MaximalIntervalsMinimizer_init_def)
  {
    fix t assume "t \<in> set ?seeds"
    then show "covers_mask t (zeros_mask f) = 0" by (intro Z seeds_legal[OF f])
  next
    fix t assume t: "t \<in> fst ?bfs"
    then have l: "legal (pf_n f) (significant_mask f) t" by (intro bfs_legal[OF f] UnI1)
    then show "covers_mask t (zeros_mask f) = 0" by (rule Z)
    fix e assume "e \<in> set (expand t (significant_mask f))"
    with l have "legal (pf_n f) (significant_mask f) e" by (rule expand_legal)
    then show "covers_mask e (zeros_mask f) = 0" by (rule Z)
  next
    fix t assume t: "t \<in> set (snd ?bfs)"
    then show "covers_mask t (zeros_mask f) = 0" by (intro Z bfs_legal[OF f] UnI2)
  next
    fix t assume t: "t \<in> set (fst (find_all_max_intervals ?st))"
    then show "covers_mask t (zeros_mask f) = 0" by (intro Z max_intervals_legal[OF f])
  next
    fix t assume "t \<in> set (fst (find_essential_intervals (snd (find_all_max_intervals ?st))))"
    then have "t \<in> set (fst (find_all_max_intervals ?st))"
      using essential_subset_max[of ?st] by (rule subsetD[rotated])
    then show "covers_mask t (zeros_mask f) = 0" by (intro Z max_intervals_legal[OF f])
  next
    fix t assume "t \<in> set (fst (minimize ?st))"
    then have m: "t \<in> set (fst (find_all_max_intervals ?st))"
      using minimize_subset[of ?st] by (rule subsetD[rotated])
    then show "covers_mask t (zeros_mask f) = 0" by (intro Z max_intervals_legal[OF f])
    from max_interval_props(2)[OF m] show "covers_mask t (ones_mask f) \<noteq> 0" by (simp add: fst)
  }
qed

lemma example4_minimize:
  "fst (minimize (MaximalIntervalsMinimizer_init
      \<lparr>pf_n = 2, total_points = 4, ones_mask = 9, dcares_mask = 2,
       significant_mask = 11, zeros_mask = 4\<rparr>)) =
    [\<lparr>bi_n = 2, bi_mask = 2, bi_value = 0\<rparr>, \<lparr>bi_n = 2, bi_mask = 1, bi_value = 1\<rparr>]"
  by code_simp

theorem soundness_witness:
  "PartialBooleanFunction_init 2 [0, 3] [1] =
     Inr \<lparr>pf_n = 2, total_points = 4, ones_mask = 9, dcares_mask = 2,
          significant_mask = 11, zeros_mask = 4\<rparr>
   \<and> \<lparr>bi_n = 2, bi_mask = 1, bi_value = 1\<rparr> \<in> set (fst (minimize
        (MaximalIntervalsMinimizer_init \<lparr>pf_n = 2, total_points = 4, ones_mask = 9,
           dcares_mask = 2, significant_mask = 11, zeros_mask = 4\<rparr>)))
   \<and> covers_mask \<lparr>bi_n = 2, bi_mask = 1, bi_value = 1\<rparr> 4 = 0
   \<and> covers_mask \<lparr>bi_n = 2, bi_mask = 1, bi_value = 1\<rparr> 9 \<noteq> 0"
proof -
  let ?f = "\<lparr>pf_n = 2, total_points = 4, ones_mask = 9, dcares_mask = 2,
          significant_mask = 11, zeros_mask = 4\<rparr>"
  let ?t = "\<lparr>bi_n = 2, bi_mask = 1, bi_value = 1\<rparr>"
  have m: "?t \<in> set (fst (minimize (MaximalIntervalsMinimizer_init ?f)))"
    unfolding example4_minimize by simp
  note S = soundness[OF example4_init, THEN conjunct2, THEN conjunct2, THEN conjunct2,
      THEN conjunct2, THEN conjunct2]
  from S m have "covers_mask ?t (zeros_mask ?f) = 0 \<and> covers_mask ?t (ones_mask ?f) \<noteq> 0"
    by (rule bspec)
  then have "covers_mask ?t 4 = 0 \<and> covers_mask ?t 9 \<noteq> 0" by simp
  with example4_init m show ?thesis by (intro conjI) (assumption | erule conjunct1 | erule conjunct2)+
qed

subsection \<open>Every required point reaches a recorded candidate\<close>

lemma legal_covers_ones:
  assumes l: "legal n s t" and p: "p < 2 ^ n" and c: "covers_point t p" and o: "bit ones p"
  shows "bit (covers_mask t ones) p"
proof -
  from l have v: "valid_interval t" and n: "bi_n t = n" by (simp_all add: legal_def)
  show ?thesis unfolding covers_mask_bits_gen[OF v] using p c o n by simp
qed

lemma closure_reaches_candidate:
  assumes cl: "bfs_closure s ones [] vis acc"
    and lg: "\<And>v. v \<in> vis \<Longrightarrow> legal n s v"
    and p: "p < 2 ^ n" and o: "bit ones p"
  shows "v \<in> vis \<Longrightarrow> covers_point v p \<Longrightarrow> \<exists>m\<in>set acc. covers_point m p"
proof (induction "popcount (bi_mask v)" arbitrary: v rule: less_induct)
  case less
  have v: "valid_interval v" using lg[OF less.prems(1)] by (simp add: legal_def)
  show ?case
  proof (cases "expand v s = []")
    case True
    have "bit (covers_mask v ones) p"
      by (rule legal_covers_ones[OF lg[OF less.prems(1)] p less.prems(2) o])
    then have "covers_mask v ones \<noteq> 0" by (auto simp: eq_0_bits)
    from bfs_closureD1[OF cl less.prems(1) True this] have "v \<in> set acc" .
    with less.prems(2) show ?thesis by blast
  next
    case False
    then obtain e where e: "e \<in> set (expand v s)" by (cases "expand v s") auto
    from bfs_closureD2[OF cl less.prems(1) e] have ev: "e \<in> vis" by simp
    have ec: "covers_point e p" by (rule expand_covers[OF v e less.prems(2)])
    have "popcount (bi_mask e) < popcount (bi_mask v)" by (rule expand_popcount[OF e])
    from less.hyps[OF this ev ec] show ?thesis .
  qed
qed

lemma seed_covers:
  assumes "p < 2 ^ n"
  shows "covers_point (BooleanInterval_init n (int (2 ^ n - 1)) (int p)) p"
proof -
  let ?t = "BooleanInterval_init n (int (2 ^ n - 1)) (int p)"
  have pb: "\<And>j. bit p j \<Longrightarrow> j < n" using assms by (simp add: less_exp_bits)
  show ?thesis
    unfolding covers_point_bits init_value_bits init_mask_bits bit_exp_minus_1
    using pb by blast
qed

lemma candidates_cover_ones:
  assumes f: "PartialBooleanFunction_init n ones dcares = Inr f"
    and o: "bit (ones_mask f) p"
  shows "\<exists>m\<in>set (snd (bfs_loop (significant_mask f) (ones_mask f)
                  (start_intervals_loop (pf_n f) (significant_mask f) []) {} [])).
           covers_point m p"
proof -
  let ?s = "significant_mask f" and ?o = "ones_mask f"
  let ?seeds = "start_intervals_loop (pf_n f) ?s []"
  let ?seed = "BooleanInterval_init (pf_n f) (int (2 ^ pf_n f - 1)) (int p)"
  have sp: "bit ?s p" by (rule init_Inr_bits(1)[OF f o])
  have pn: "p < 2 ^ pf_n f" by (rule init_Inr_bits(2)[OF f sp])
  have seed: "?seed \<in> set ?seeds" unfolding start_intervals_loop_set using sp by blast
  have "bfs_closure ?s ?o ?seeds {} []" by (simp add: bfs_closure_def)
  with bfs_loop_closure[of ?s ?o ?seeds "{}" "[]"]
  have cl: "bfs_closure ?s ?o [] (fst (bfs_loop ?s ?o ?seeds {} [])) (snd (bfs_loop ?s ?o ?seeds {} []))"
    and sub: "{} \<union> set ?seeds \<subseteq> fst (bfs_loop ?s ?o ?seeds {} [])"
    by (simp_all del: Un_empty_left)
  have lg: "\<And>v. v \<in> fst (bfs_loop ?s ?o ?seeds {} []) \<Longrightarrow> legal (pf_n f) ?s v"
    by (intro bfs_legal[OF f] UnI1)
  have sv: "?seed \<in> fst (bfs_loop ?s ?o ?seeds {} [])" using seed sub by blast
  show ?thesis
    by (rule closure_reaches_candidate[OF cl lg pn o sv seed_covers[OF pn]])
qed

subsection \<open>Redundancy elimination removes no candidate\<close>

lemma ne_Nil_if_in_set: "x \<in> set xs \<Longrightarrow> xs \<noteq> []"
  by (cases xs) simp_all

lemma no_strict_subset:
  assumes lt: "legal n s t" and lo: "legal n s u" and e: "expand t s = []"
    and sub: "is_subset_of t u"
  shows "t = u"
proof (rule ccontr)
  assume ne: "t \<noteq> u"
  from lt have vt: "valid_interval t" and nt: "bi_n t = n" by (simp_all add: legal_def)
  from lo have vu: "valid_interval u" and nu: "bi_n u = n"
    and cu: "\<And>p. p < 2 ^ n \<Longrightarrow> covers_point u p \<Longrightarrow> bit s p" by (simp_all add: legal_def)
  from sub have m: "\<And>j. bit (bi_mask u) j \<Longrightarrow> bit (bi_mask t) j"
    and v: "\<And>j. bit (bi_value u) j \<longleftrightarrow> bit (bi_value t) j \<and> bit (bi_mask u) j"
    unfolding is_subset_of_bits by blast+
  have "bi_mask t \<noteq> bi_mask u"
  proof
    assume eq: "bi_mask t = bi_mask u"
    have "bi_value t = bi_value u"
      by (rule bit_eqI) (use v valid_value_bits[OF vt] eq in auto)
    with eq nt nu have "t = u" by simp
    with ne show False by simp
  qed
  then obtain i where "bit (bi_mask t) i \<noteq> bit (bi_mask u) i" by (auto simp: bit_eq_iff)
  with m have i: "bit (bi_mask t) i" "\<not> bit (bi_mask u) i" by blast+
  have iltn: "i < bi_n t" by (rule valid_mask_bits[OF vt i(1)])
  have adm: "spec_admissible t s i"
    unfolding spec_admissible_def list_all_iff
  proof (intro ballI impI)
    fix p assume "p \<in> set [0..<2 ^ bi_n t]"
      and c: "covers_point (spec_drop_literal t i) p \<and> \<not> covers_point t p"
    then have pn: "p < 2 ^ n" using nt by simp
    from c have d: "\<And>j. bit p j \<and> (bit (bi_mask t) j \<and> i \<noteq> j) \<longleftrightarrow> bit (bi_value t) j \<and> i \<noteq> j"
      unfolding covers_point_bits by (simp add: spec_drop_literal_def bit_unset_bit_iff)
    have "covers_point u p"
      unfolding covers_point_bits
    proof
      fix j show "bit p j \<and> bit (bi_mask u) j \<longleftrightarrow> bit (bi_value u) j"
        using d[of j] m[of j] v[of j] i(2) by blast
    qed
    then show "bit s p" by (rule cu[OF pn])
  qed
  have "i \<in> set (filter (\<lambda>i. bit (bi_mask t) i \<and> spec_admissible t s i) [0..<bi_n t])"
    using i(1) adm iltn by simp
  then have "filter (\<lambda>i. bit (bi_mask t) i \<and> spec_admissible t s i) [0..<bi_n t] \<noteq> []"
    by (rule ne_Nil_if_in_set)
  then have "spec_expand t s \<noteq> []" unfolding spec_expand_def by simp
  then show False using e by (simp add: expand_eq_spec[OF vt])
qed

lemma unique_intervals_of_keeps:
  assumes d: "distinct xs"
    and ns: "\<And>t u. t \<in> set xs \<Longrightarrow> u \<in> set xs \<Longrightarrow> is_subset_of t u \<Longrightarrow> t = u"
  shows "unique_intervals_of xs = xs"
proof -
  have "filter (\<lambda>(i, interval).
                 \<not> list_ex (\<lambda>(j, other). i \<noteq> j \<and> is_subset_of interval other)
                     (enumerate 0 xs)) (enumerate 0 xs) = enumerate 0 xs"
  proof (rule filter_True, clarify)
    fix i t assume it: "(i, t) \<in> set (enumerate 0 xs)"
      and ex: "list_ex (\<lambda>(j, other). i \<noteq> j \<and> is_subset_of t other) (enumerate 0 xs)"
    from ex obtain j u where ju: "(j, u) \<in> set (enumerate 0 xs)" "i \<noteq> j" "is_subset_of t u"
      unfolding list_ex_iff by auto
    from it have i: "i < length xs" "xs ! i = t" by (simp_all add: in_set_enumerate_eq)
    from ju(1) have j: "j < length xs" "xs ! j = u" by (simp_all add: in_set_enumerate_eq)
    have "t = u" using i j ju(3) by (intro ns) auto
    then have "xs ! i = xs ! j" using i j by simp
    with d i(1) j(1) have "i = j" by (simp add: nth_eq_iff_index_eq)
    with ju(2) show False by simp
  qed
  then show ?thesis by (simp add: unique_intervals_of_def)
qed

lemma max_intervals_cover_ones:
  assumes f: "PartialBooleanFunction_init n ones dcares = Inr f"
    and o: "bit (ones_mask f) p"
  shows "\<exists>m\<in>set (fst (find_all_max_intervals (MaximalIntervalsMinimizer_init f))).
           bit (covers_mask m (ones_mask f)) p"
proof -
  let ?s = "significant_mask f" and ?o = "ones_mask f"
  let ?seeds = "start_intervals_loop (pf_n f) ?s []"
  let ?acc = "snd (bfs_loop ?s ?o ?seeds {} [])"
  have st: "func (MaximalIntervalsMinimizer_init f) = f" "mm_n (MaximalIntervalsMinimizer_init f) = pf_n f"
    by (simp_all add: MaximalIntervalsMinimizer_init_def)
  have lg: "\<And>t. t \<in> set ?acc \<Longrightarrow> legal (pf_n f) ?s t" by (intro bfs_legal[OF f] UnI2)
  have ex: "\<And>t. t \<in> set ?acc \<Longrightarrow> expand t ?s = []"
    using bfs_loop_acc[of _ ?s ?o ?seeds "{}" "[]"] by simp
  have d: "distinct ?acc" using bfs_loop_distinct[of "[]" "{}" ?s ?o ?seeds] by simp
  have u: "unique_intervals_of ?acc = ?acc"
    by (rule unique_intervals_of_keeps[OF d]) (rule no_strict_subset[OF lg lg ex])
  have set_eq: "set (fst (find_all_max_intervals (MaximalIntervalsMinimizer_init f))) = set ?acc"
    unfolding find_all_max_intervals_fst st set_sort_intervals u ..
  from candidates_cover_ones[OF f o] obtain m where m: "m \<in> set ?acc" "covers_point m p" by blast
  have sp: "bit ?s p" by (rule init_Inr_bits(1)[OF f o])
  have pn: "p < 2 ^ pf_n f" by (rule init_Inr_bits(2)[OF f sp])
  have "bit (covers_mask m ?o) p" by (rule legal_covers_ones[OF lg[OF m(1)] pn m(2) o])
  with m(1) show ?thesis unfolding set_eq by blast
qed

subsection \<open>Completeness of the cover\<close>

lemma popcount_eq_0: "popcount x = 0 \<longleftrightarrow> x = 0"
proof -
  have "card {i. bit x i} = 0 \<longleftrightarrow> {i. bit x i} = {}"
    using finite_bits_nat[of x] by simp
  then show ?thesis unfolding popcount_card eq_0_bits by blast
qed

lemma select_best_fold_Some_stays:
  "fst (fold (\<lambda>interval (best_interval, best_coverage).
             if interval \<in> set chosen then (best_interval, best_coverage)
             else let coverage = covers_mask interval remaining;
                      coverage_count = popcount coverage
                  in if coverage_count > best_coverage then (Some interval, coverage_count)
                     else (best_interval, best_coverage))
          intervals (Some y, k)) \<noteq> None"
  by (induction intervals arbitrary: y k) (simp_all add: Let_def)

lemma select_best_fold_None:
  "fold (\<lambda>interval (best_interval, best_coverage).
             if interval \<in> set chosen then (best_interval, best_coverage)
             else let coverage = covers_mask interval remaining;
                      coverage_count = popcount coverage
                  in if coverage_count > best_coverage then (Some interval, coverage_count)
                     else (best_interval, best_coverage))
          intervals (b0, c0) = (None, c) \<Longrightarrow>
   t \<in> set intervals \<Longrightarrow> t \<in> set chosen \<or> popcount (covers_mask t remaining) \<le> c0"
proof (induction intervals arbitrary: b0 c0)
  case Nil
  then show ?case by simp
next
  case (Cons x xs)
  let ?F = "\<lambda>interval (best_interval, best_coverage).
             if interval \<in> set chosen then (best_interval, best_coverage)
             else let coverage = covers_mask interval remaining;
                      coverage_count = popcount coverage
                  in if coverage_count > best_coverage then (Some interval, coverage_count)
                     else (best_interval, best_coverage)"
  show ?case
  proof (cases "x \<notin> set chosen \<and> popcount (covers_mask x remaining) > c0")
    case True
    with Cons.prems(1) have "fold ?F xs (Some x, popcount (covers_mask x remaining)) = (None, c)"
      by (simp add: Let_def)
    then have "fst (fold ?F xs (Some x, popcount (covers_mask x remaining))) = None" by simp
    with select_best_fold_Some_stays[of chosen remaining xs x "popcount (covers_mask x remaining)"]
    have False by simp
    then show ?thesis ..
  next
    case False
    with Cons.prems(1) have r: "fold ?F xs (b0, c0) = (None, c)"
      by (auto simp add: Let_def split: if_splits)
    show ?thesis
    proof (cases "t = x")
      case True
      with False show ?thesis by auto
    next
      case False
      with Cons.prems(2) have "t \<in> set xs" by simp
      from Cons.IH[OF r this] show ?thesis .
    qed
  qed
qed

lemma select_best_None:
  assumes "select_best intervals chosen remaining = (None, c)" and "t \<in> set intervals"
  shows "t \<in> set chosen \<or> covers_mask t remaining = 0"
proof -
  from select_best_fold_None[OF assms(1)[unfolded select_best_def] assms(2)]
  show ?thesis by (simp add: popcount_eq_0)
qed

lemma fold_or_covers_bits:
  "bit (fold (\<lambda>interval cm. cm OR covers_mask interval ones) xs c0) p
     \<longleftrightarrow> bit c0 p \<or> (\<exists>t\<in>set xs. bit (covers_mask t ones) p)"
  by (induction xs arbitrary: c0) (auto simp: bit_or_iff)

lemma greedy_cover_loop_complete:
  "(\<forall>p. bit ones p \<longrightarrow> (\<exists>t\<in>set intervals. bit (covers_mask t ones) p)) \<Longrightarrow>
   (\<forall>t\<in>set intervals. valid_interval t) \<Longrightarrow>
   (\<forall>p. bit uncovered p \<longleftrightarrow>
              bit ones p \<and> \<not> (\<exists>t\<in>set result. bit (covers_mask t ones) p)) \<Longrightarrow>
   bit ones p \<Longrightarrow>
   \<exists>t\<in>set (greedy_cover_loop ones intervals uncovered result). bit (covers_mask t ones) p"
proof (induction ones intervals uncovered result rule: greedy_cover_loop.induct)
  case (1 ones intervals uncovered result)
  note cov = "1.prems"(1) and val = "1.prems"(2) and inv = "1.prems"(3) and op = "1.prems"(4)
  show ?case
  proof (cases "uncovered = 0")
    case True
    then have "\<not> bit uncovered p" by simp
    with inv op have "\<exists>t\<in>set result. bit (covers_mask t ones) p" by blast
    with True show ?thesis by (simp add: greedy_cover_loop.simps)
  next
    case False
    obtain b c where sb: "select_best intervals result uncovered = (b, c)"
      by (cases "select_best intervals result uncovered")
    show ?thesis
    proof (cases b)
      case None
      from False obtain q where q: "bit uncovered q" by (auto simp: eq_0_bits)
      with inv have qo: "bit ones q" and qr: "\<not> (\<exists>t\<in>set result. bit (covers_mask t ones) q)"
        by blast+
      from cov qo obtain t where t: "t \<in> set intervals" "bit (covers_mask t ones) q"
        by blast
      from t(2) qr have tr: "t \<notin> set result" by blast
      from val t(1) have vt: "valid_interval t" by blast
      have "bit (covers_mask t uncovered) q"
        using t(2) q unfolding covers_mask_bits_gen[OF vt] by simp
      then have "covers_mask t uncovered \<noteq> 0" by (auto simp: eq_0_bits)
      with select_best_None[OF sb[unfolded None] t(1)] tr have False by simp
      then show ?thesis ..
    next
      case (Some best)
      from select_best_Some[OF sb[unfolded Some]] have c: "0 < c" by simp
      let ?u = "and_not uncovered (covers_mask best ones)"
      have inv': "\<forall>p. bit ?u p \<longleftrightarrow>
              bit ones p \<and> \<not> (\<exists>t\<in>set (result @ [best]). bit (covers_mask t ones) p)"
        using inv by (auto simp: bit_and_not)
      have "\<exists>t\<in>set (greedy_cover_loop ones intervals ?u (result @ [best])).
              bit (covers_mask t ones) p"
        by (rule "1.IH"[OF False sb[unfolded Some, symmetric] refl c cov val inv' op])
      moreover have "greedy_cover_loop ones intervals uncovered result
          = greedy_cover_loop ones intervals ?u (result @ [best])"
        using False sb Some c by (subst greedy_cover_loop.simps) simp
      ultimately show ?thesis by simp
    qed
  qed
qed

lemma greedy_cover_complete:
  assumes cov: "\<And>p. bit (ones_mask f) p \<Longrightarrow> \<exists>t\<in>set intervals. bit (covers_mask t (ones_mask f)) p"
    and val: "\<And>t. t \<in> set intervals \<Longrightarrow> valid_interval t"
  shows "fold (\<lambda>interval cm. cm OR covers_mask interval (ones_mask f)) (greedy_cover f intervals) 0
           = ones_mask f"
proof (rule bit_eqI)
  fix p
  let ?ones = "ones_mask f"
  have inv: "\<forall>p. bit ?ones p \<longleftrightarrow> bit ?ones p \<and> \<not> (\<exists>t\<in>set []. bit (covers_mask t ?ones) p)"
    by simp
  show "bit (fold (\<lambda>interval cm. cm OR covers_mask interval ?ones) (greedy_cover f intervals) 0) p
          = bit ?ones p"
  proof
    assume "bit (fold (\<lambda>interval cm. cm OR covers_mask interval ?ones) (greedy_cover f intervals) 0) p"
    then obtain t where t: "t \<in> set (greedy_cover f intervals)" "bit (covers_mask t ?ones) p"
      unfolding fold_or_covers_bits by auto
    from t(1) greedy_cover_subset have "t \<in> set intervals" by blast
    from t(2) show "bit ?ones p" unfolding covers_mask_bits_gen[OF val[OF \<open>t \<in> set intervals\<close>]]
      by simp
  next
    assume "bit ?ones p"
    have cov': "\<forall>p. bit ?ones p \<longrightarrow> (\<exists>t\<in>set intervals. bit (covers_mask t ?ones) p)"
      using cov by blast
    have val': "\<forall>t\<in>set intervals. valid_interval t" using val by blast
    from greedy_cover_loop_complete[of ?ones intervals ?ones "[]" p, OF cov' val' inv \<open>bit ?ones p\<close>]
    show "bit (fold (\<lambda>interval cm. cm OR covers_mask interval ?ones) (greedy_cover f intervals) 0) p"
      unfolding fold_or_covers_bits greedy_cover_def by simp
  qed
qed

text \<open>
  Claim C1. Completeness: for every successfully constructed function (in particular
  every one with a non-empty ones list), the union of \<open>covers_mask t ones_mask\<close> over the
  implicants \<open>t\<close> returned by \<open>minimize\<close> is exactly \<open>ones_mask\<close>. All loops of the
  selection are total functions here, so the cover is reached.
\<close>

theorem cover_complete:
  assumes f: "PartialBooleanFunction_init n ones dcares = Inr f"
  shows "fold (\<lambda>interval cm. cm OR covers_mask interval (ones_mask f))
           (fst (minimize (MaximalIntervalsMinimizer_init f))) 0 = ones_mask f"
proof -
  let ?st = "MaximalIntervalsMinimizer_init f"
  let ?mx = "fst (find_all_max_intervals ?st)"
  let ?ess = "essential_of (ones_mask f) ?mx"
  have fst: "func ?st = f" by (simp add: MaximalIntervalsMinimizer_init_def)
  show ?thesis
  proof (cases "fold (\<lambda>interval cm. cm OR covers_mask interval (ones_mask f)) ?ess 0 = ones_mask f")
    case True
    then have "fst (minimize ?st) = ?ess" unfolding minimize_fst Let_def fst by simp
    with True show ?thesis by simp
  next
    case False
    then have m: "fst (minimize ?st) = greedy_cover f ?mx" unfolding minimize_fst Let_def fst by simp
    have val: "\<And>t. t \<in> set ?mx \<Longrightarrow> valid_interval t"
      using max_intervals_legal[OF f] by (simp add: legal_def)
    show ?thesis unfolding m
      by (rule greedy_cover_complete[OF max_intervals_cover_ones[OF f] val])
  qed
qed

lemma example4_cover:
  "fold (\<lambda>interval cm. cm OR covers_mask interval 9)
     [\<lparr>bi_n = 2, bi_mask = 2, bi_value = 0\<rparr>, \<lparr>bi_n = 2, bi_mask = 1, bi_value = 1\<rparr>] 0 = 9"
  by code_simp

theorem cover_complete_witness:
  "PartialBooleanFunction_init 2 [0, 3] [1] =
     Inr \<lparr>pf_n = 2, total_points = 4, ones_mask = 9, dcares_mask = 2,
          significant_mask = 11, zeros_mask = 4\<rparr>
   \<and> fst (minimize (MaximalIntervalsMinimizer_init \<lparr>pf_n = 2, total_points = 4, ones_mask = 9,
          dcares_mask = 2, significant_mask = 11, zeros_mask = 4\<rparr>))
      = [\<lparr>bi_n = 2, bi_mask = 2, bi_value = 0\<rparr>, \<lparr>bi_n = 2, bi_mask = 1, bi_value = 1\<rparr>]
   \<and> fold (\<lambda>interval cm. cm OR covers_mask interval 9)
        (fst (minimize (MaximalIntervalsMinimizer_init \<lparr>pf_n = 2, total_points = 4,
           ones_mask = 9, dcares_mask = 2, significant_mask = 11, zeros_mask = 4\<rparr>))) 0 = 9"
proof -
  from cover_complete[OF example4_init]
  have "fold (\<lambda>interval cm. cm OR covers_mask interval 9)
        (fst (minimize (MaximalIntervalsMinimizer_init \<lparr>pf_n = 2, total_points = 4,
           ones_mask = 9, dcares_mask = 2, significant_mask = 11, zeros_mask = 4\<rparr>))) 0 = 9"
    by simp
  with example4_init example4_minimize show ?thesis by (intro conjI)
qed

end
